theory Spec2Isabelle
  imports Complex_Main "HOL-Library.Word"
begin

section \<open>Platform values: bytes, numbers, errors\<close>

text \<open>
  The audio utilities of the repository (\<^verbatim>\<open>src/utils/audio.ts\<close>) work on typed arrays,
  a \<^verbatim>\<open>DataView\<close> and JavaScript numbers. A \<^verbatim>\<open>Uint8Array\<close> that covers its whole
  \<^verbatim>\<open>ArrayBuffer\<close> (every one the code creates does) is the list of its bytes. Integral
  JavaScript numbers are \<open>int\<close>; the conversions the typed-array and \<^verbatim>\<open>DataView\<close> setters
  apply (\<^verbatim>\<open>ToUint8\<close>, \<^verbatim>\<open>ToUint16\<close>, \<^verbatim>\<open>ToInt16\<close>, \<^verbatim>\<open>ToUint32\<close>) are written out with
  \<open>mod\<close>. Typed arrays use the byte order of the platform, taken to be little-endian.
  Every exception the code can raise or let through is a value of \<open>js_error\<close>.
\<close>

type_synonym byte = "8 word"

datatype js_error =
    InvalidCharacterError
  | RangeError
  | NotSupportedError
  | TypeError
  | EncodingError
  | Error string

record blob =
  blob_bytes :: "byte list"
  blob_type :: string

definition and_then :: "js_error + 'a \<Rightarrow> ('a \<Rightarrow> js_error + 'b) \<Rightarrow> js_error + 'b" where
  "and_then r f = (case r of Inl e \<Rightarrow> Inl e | Inr x \<Rightarrow> f x)"

subsection \<open>Products of integral numbers\<close>

text \<open>
  A JavaScript number is a binary64 value. The product of two integral numbers is their
  exact product rounded to 53 significant bits, ties to even, and an infinity when the
  rounded magnitude reaches \<open>2\<^sup>1\<^sup>0\<^sup>2\<^sup>4\<close>; below \<open>2\<^sup>5\<^sup>3\<close> it is exact. An infinity times
  zero is NaN. The setters of a \<^verbatim>\<open>DataView\<close> store NaN and the infinities as 0. The
  encoder multiplies integral numbers only (a sample rate, a channel count and the
  constant 2); its sums are of a typed-array length, which is below \<open>2\<^sup>5\<^sup>3\<close>, and small
  constants, and are exact. An integer that is not itself a binary64 value is no
  argument the code can receive.
\<close>

datatype number = Integral int | PlusInfinity | MinusInfinity | NotANumber

fun floor_log2 :: "nat \<Rightarrow> nat" where
  "floor_log2 n = (if n < 2 then 0 else Suc (floor_log2 (n div 2)))"

declare floor_log2.simps [simp del]

definition round_binary64 :: "int \<Rightarrow> number" where
  "round_binary64 x =
     (if \<bar>x\<bar> < 9007199254740992 then Integral x
      else
        let ulp = 2 ^ (floor_log2 (nat \<bar>x\<bar>) - 52);
            q = \<bar>x\<bar> div ulp;
            r = \<bar>x\<bar> mod ulp;
            m = (if 2 * r < ulp \<or> (2 * r = ulp \<and> even q) then q else q + 1) * ulp
        in if m \<ge> 2 ^ 1024 then (if x < 0 then MinusInfinity else PlusInfinity)
           else Integral (if x < 0 then - m else m))"

fun number_sign :: "number \<Rightarrow> int" where
  "number_sign (Integral a) = sgn a"
| "number_sign PlusInfinity = 1"
| "number_sign MinusInfinity = - 1"
| "number_sign NotANumber = 0"

fun number_times :: "number \<Rightarrow> number \<Rightarrow> number" where
  "number_times (Integral a) (Integral b) = round_binary64 (a * b)"
| "number_times NotANumber _ = NotANumber"
| "number_times _ NotANumber = NotANumber"
| "number_times a b =
     (let s = number_sign a * number_sign b
      in if s = 0 then NotANumber else if 0 < s then PlusInfinity else MinusInfinity)"

definition integer_or_zero :: "number \<Rightarrow> int" where
  "integer_or_zero x = (case x of Integral n \<Rightarrow> n | _ \<Rightarrow> 0)"

subsection \<open>Int16Array over a byte buffer\<close>

text \<open>
  \<^verbatim>\<open>new Int16Array(buffer)\<close> throws a \<^verbatim>\<open>RangeError\<close> when the byte length of the buffer
  is not a multiple of 2; otherwise element \<open>i\<close> is the two's complement reading of the
  bytes \<open>2i\<close> (low) and \<open>2i + 1\<close> (high).
\<close>

definition int16_of_bytes :: "byte \<Rightarrow> byte \<Rightarrow> int" where
  "int16_of_bytes lo hi =
     (let u = int (unat lo) + 256 * int (unat hi)
      in if u \<ge> 32768 then u - 65536 else u)"

fun int16_elements :: "byte list \<Rightarrow> int list" where
  "int16_elements (lo # hi # rest) = int16_of_bytes lo hi # int16_elements rest"
| "int16_elements _ = []"

definition Int16Array :: "byte list \<Rightarrow> js_error + int list" where
  "Int16Array buffer =
     (if length buffer mod 2 \<noteq> 0 then Inl RangeError else Inr (int16_elements buffer))"

subsection \<open>DataView setters\<close>

text \<open>
  Each setter throws a \<^verbatim>\<open>RangeError\<close> when the bytes it writes do not lie inside the
  view. The value is first reduced modulo the width of the field.
\<close>

fun store_bytes :: "byte list \<Rightarrow> nat \<Rightarrow> byte list \<Rightarrow> byte list" where
  "store_bytes view off [] = view"
| "store_bytes view off (b # bs) = store_bytes (view[off := b]) (Suc off) bs"

definition set_bytes :: "nat \<Rightarrow> byte list \<Rightarrow> byte list \<Rightarrow> js_error + byte list" where
  "set_bytes off bs view =
     (if off + length bs \<le> length view then Inr (store_bytes view off bs) else Inl RangeError)"

definition setUint8 :: "nat \<Rightarrow> int \<Rightarrow> byte list \<Rightarrow> js_error + byte list" where
  "setUint8 off v view = set_bytes off [word_of_int (v mod 256)] view"

definition bytes16 :: "int \<Rightarrow> bool \<Rightarrow> byte list" where
  "bytes16 v littleEndian =
     (let u = v mod 65536;
          bs = [word_of_int (u mod 256), word_of_int (u div 256)]
      in if littleEndian then bs else rev bs)"

definition bytes32 :: "int \<Rightarrow> bool \<Rightarrow> byte list" where
  "bytes32 v littleEndian =
     (let u = v mod 4294967296;
          bs = [word_of_int (u mod 256), word_of_int (u div 256 mod 256),
                word_of_int (u div 65536 mod 256), word_of_int (u div 16777216)]
      in if littleEndian then bs else rev bs)"

definition setUint16 :: "nat \<Rightarrow> int \<Rightarrow> bool \<Rightarrow> byte list \<Rightarrow> js_error + byte list" where
  "setUint16 off v littleEndian view = set_bytes off (bytes16 v littleEndian) view"

definition setInt16 :: "nat \<Rightarrow> int \<Rightarrow> bool \<Rightarrow> byte list \<Rightarrow> js_error + byte list" where
  "setInt16 off v littleEndian view = set_bytes off (bytes16 v littleEndian) view"

definition setUint32 :: "nat \<Rightarrow> int \<Rightarrow> bool \<Rightarrow> byte list \<Rightarrow> js_error + byte list" where
  "setUint32 off v littleEndian view = set_bytes off (bytes32 v littleEndian) view"

text \<open>A sequence of writes to one view stops at the first that throws.\<close>

fun run_writes :: "(byte list \<Rightarrow> js_error + byte list) list \<Rightarrow> byte list \<Rightarrow> js_error + byte list" where
  "run_writes [] view = Inr view"
| "run_writes (w # ws) view = and_then (w view) (run_writes ws)"

section \<open>The WAV encoder\<close>

text \<open>\<^verbatim>\<open>writeString\<close>: one \<^verbatim>\<open>setUint8\<close> per character, at \<open>offset + i\<close>.\<close>

fun writeString :: "nat \<Rightarrow> string \<Rightarrow> byte list \<Rightarrow> js_error + byte list" where
  "writeString offset [] view = Inr view"
| "writeString offset (c # cs) view =
     and_then (setUint8 offset (of_char c) view) (writeString (Suc offset) cs)"

text \<open>The loop of \<^verbatim>\<open>pcmToWav\<close> that writes sample \<open>i\<close> at byte \<open>44 + i * 2\<close>.\<close>

function write_pcm :: "nat \<Rightarrow> int list \<Rightarrow> byte list \<Rightarrow> js_error + byte list" where
  "write_pcm i pcmDataInt16 view =
     (if i < length pcmDataInt16
      then and_then (setInt16 (44 + i * 2) (pcmDataInt16 ! i) True view)
             (write_pcm (i + 1) pcmDataInt16)
      else Inr view)"
  by pat_completeness auto
termination
  by (relation "measure (\<lambda>(i, pcm, view). length pcm - i)") auto

declare write_pcm.simps [simp del]

definition pcmToWav :: "byte list \<Rightarrow> int \<Rightarrow> int \<Rightarrow> js_error + blob" where
  "pcmToWav pcmData sampleRate numChannels =
     and_then (Int16Array pcmData) (\<lambda>pcmDataInt16.
       let format = 1;
           bitDepth = 16;
           bytesPerSample = bitDepth div 8;
           blockAlign = number_times (Integral numChannels) (Integral bytesPerSample);
           byteRate = number_times (Integral sampleRate) blockAlign;
           dataSize = int (length pcmDataInt16) * bytesPerSample;
           chunkSize = 36 + dataSize;
           buffer = replicate (nat (44 + dataSize)) (0 :: byte)
       in and_then
            (run_writes
               [writeString 0 ''RIFF'',
                setUint32 4 chunkSize True,
                writeString 8 ''WAVE'',
                writeString 12 ''fmt '',
                setUint32 16 16 True,
                setUint16 20 format True,
                setUint16 22 numChannels True,
                setUint32 24 sampleRate True,
                setUint32 28 (integer_or_zero byteRate) True,
                setUint16 32 (integer_or_zero blockAlign) True,
                setUint16 34 bitDepth True,
                writeString 36 ''data'',
                setUint32 40 dataSize True,
                write_pcm 0 pcmDataInt16]
               buffer)
            (\<lambda>view. Inr \<lparr>blob_bytes = view, blob_type = ''audio/wav''\<rparr>))"


section \<open>Floating-point samples\<close>

text \<open>
  The samples of an \<^verbatim>\<open>AudioBuffer\<close> are \<^verbatim>\<open>Float32Array\<close> elements. A finite one is a
  dyadic rational and is kept as the rational it denotes; the two infinities and NaN are
  values of their own (the two zeros are not told apart: the code never divides by a
  sample). The sample conversion computes in binary64: \<^verbatim>\<open>Math.min\<close>, \<^verbatim>\<open>Math.max\<close> and
  \<^verbatim>\<open><\<close> are exact, and so is the product of a binary32 value (24 significant bits) with
  \<^verbatim>\<open>0x8000\<close> or \<^verbatim>\<open>0x7FFF\<close> (at most 16 bits), which fits the 53 bits of a binary64
  significand. The quotient \<^verbatim>\<open>s / 32768.0\<close> of a 16-bit integer is exact in binary32 as
  well. On these operations the rationals compute what the code computes.
\<close>

datatype float = Finite rat | PosInfinity | NegInfinity | NaN

fun float_less :: "float \<Rightarrow> float \<Rightarrow> bool" where
  "float_less NaN _ = False"
| "float_less _ NaN = False"
| "float_less (Finite a) (Finite b) = (a < b)"
| "float_less (Finite a) PosInfinity = True"
| "float_less (Finite a) NegInfinity = False"
| "float_less PosInfinity _ = False"
| "float_less NegInfinity NegInfinity = False"
| "float_less NegInfinity _ = True"

definition Math_min :: "float \<Rightarrow> float \<Rightarrow> float" where
  "Math_min a b = (if a = NaN \<or> b = NaN then NaN else if float_less b a then b else a)"

definition Math_max :: "float \<Rightarrow> float \<Rightarrow> float" where
  "Math_max a b = (if a = NaN \<or> b = NaN then NaN else if float_less a b then b else a)"

fun float_sign :: "float \<Rightarrow> rat" where
  "float_sign (Finite a) = sgn a"
| "float_sign PosInfinity = 1"
| "float_sign NegInfinity = - 1"
| "float_sign NaN = 0"

fun float_times :: "float \<Rightarrow> float \<Rightarrow> float" where
  "float_times (Finite a) (Finite b) = Finite (a * b)"
| "float_times NaN _ = NaN"
| "float_times _ NaN = NaN"
| "float_times a b =
     (let s = float_sign a * float_sign b
      in if s = 0 then NaN else if 0 < s then PosInfinity else NegInfinity)"

fun float_plus :: "float \<Rightarrow> float \<Rightarrow> float" where
  "float_plus (Finite a) (Finite b) = Finite (a + b)"
| "float_plus NaN _ = NaN"
| "float_plus _ NaN = NaN"
| "float_plus PosInfinity NegInfinity = NaN"
| "float_plus NegInfinity PosInfinity = NaN"
| "float_plus PosInfinity _ = PosInfinity"
| "float_plus _ PosInfinity = PosInfinity"
| "float_plus NegInfinity _ = NegInfinity"
| "float_plus _ NegInfinity = NegInfinity"

text \<open>Truncation toward zero, and the \<^verbatim>\<open>ToInt16\<close> conversion of a store into an
  \<^verbatim>\<open>Int16Array\<close>: NaN and the infinities become 0, every other number is truncated and
  reduced modulo \<open>2\<^sup>1\<^sup>6\<close> into the signed range.\<close>

definition trunc_toward_zero :: "rat \<Rightarrow> int" where
  "trunc_toward_zero q = (if q < 0 then \<lceil>q\<rceil> else \<lfloor>q\<rfloor>)"

fun ToInt16 :: "float \<Rightarrow> int" where
  "ToInt16 (Finite q) =
     (let int16bit = trunc_toward_zero q mod 65536
      in if int16bit \<ge> 32768 then int16bit - 65536 else int16bit)"
| "ToInt16 _ = 0"

section \<open>The sample converter\<close>

text \<open>Line 107 of \<^verbatim>\<open>mixAudio\<close>: \<^verbatim>\<open>speechDataInt16[i] / 32768.0\<close>.\<close>

definition pcm16_to_float :: "int \<Rightarrow> float" where
  "pcm16_to_float s = Finite (of_int s / 32768)"

text \<open>Lines 77 and 78 of \<^verbatim>\<open>audioBufferToPcm\<close>, for one element of \<^verbatim>\<open>interleaved\<close>.\<close>

definition float_to_pcm16 :: "float \<Rightarrow> int" where
  "float_to_pcm16 x =
     (let sample = Math_max (Finite (- 1)) (Math_min (Finite 1) x)
      in ToInt16 (if float_less sample (Finite 0)
                  then float_times sample (Finite 32768)
                  else float_times sample (Finite 32767)))"

record AudioBuffer =
  ab_sampleRate :: nat
  ab_length :: nat
  ab_channels :: "float list list"

definition numberOfChannels :: "AudioBuffer \<Rightarrow> nat" where
  "numberOfChannels b = length (ab_channels b)"

text \<open>Reading a \<^verbatim>\<open>Float32Array\<close> past its end gives \<^verbatim>\<open>undefined\<close>, which a store into
  another \<^verbatim>\<open>Float32Array\<close> turns into NaN.\<close>

definition element :: "float list \<Rightarrow> nat \<Rightarrow> float" where
  "element channelData i = (if i < length channelData then channelData ! i else NaN)"

definition interleave :: "AudioBuffer \<Rightarrow> float list" where
  "interleave audioBuffer =
     (let numChannels = numberOfChannels audioBuffer;
          len = ab_length audioBuffer
      in fold (\<lambda>channel interleaved.
                 let channelData = ab_channels audioBuffer ! channel
                 in fold (\<lambda>i interleaved.
                            interleaved[i * numChannels + channel := element channelData i])
                      [0..<len] interleaved)
           [0..<numChannels]
           (replicate (len * numChannels) (Finite 0)))"

definition audioBufferToPcm :: "AudioBuffer \<Rightarrow> byte list" where
  "audioBufferToPcm audioBuffer =
     (let pcmData = map float_to_pcm16 (interleave audioBuffer)
      in concat (map (\<lambda>v. bytes16 v True) pcmData))"


section \<open>The byte decoder\<close>

text \<open>
  \<^verbatim>\<open>atob\<close> is the forgiving base64 decoder of the platform: it removes ASCII whitespace,
  removes one or two trailing \<^verbatim>\<open>=\<close> when the length is a multiple of 4, throws an
  \<^verbatim>\<open>InvalidCharacterError\<close> when the remaining length is 1 modulo 4 or a character is
  outside the alphabet, and otherwise turns every four characters into three bytes; a
  last group of two or three characters gives one or two bytes, its spare bits dropped.
  The result is a binary string: one character per byte.
\<close>

definition is_ascii_whitespace :: "char \<Rightarrow> bool" where
  "is_ascii_whitespace c = (of_char c \<in> {9, 10, 12, 13, 32 :: nat})"

definition base64_value :: "char \<Rightarrow> nat option" where
  "base64_value c =
     (let n = of_char c :: nat
      in if 65 \<le> n \<and> n \<le> 90 then Some (n - 65)
         else if 97 \<le> n \<and> n \<le> 122 then Some (n - 71)
         else if 48 \<le> n \<and> n \<le> 57 then Some (n + 4)
         else if n = 43 then Some 62
         else if n = 47 then Some 63
         else None)"

definition strip_padding :: "string \<Rightarrow> string" where
  "strip_padding data =
     (if length data mod 4 = 0
      then (if 2 \<le> length data \<and> drop (length data - 2) data = ''==''
            then take (length data - 2) data
            else if 1 \<le> length data \<and> last data = CHR ''=''
            then butlast data
            else data)
      else data)"

fun sextets_to_bytes :: "nat list \<Rightarrow> nat list" where
  "sextets_to_bytes (a # b # c # d # rest) =
     (a * 4 + b div 16) # (b mod 16 * 16 + c div 4) # (c mod 4 * 64 + d) # sextets_to_bytes rest"
| "sextets_to_bytes [a, b, c] = [a * 4 + b div 16, b mod 16 * 16 + c div 4]"
| "sextets_to_bytes [a, b] = [a * 4 + b div 16]"
| "sextets_to_bytes _ = []"

definition atob :: "string \<Rightarrow> js_error + string" where
  "atob s =
     (let data = strip_padding (filter (\<lambda>c. \<not> is_ascii_whitespace c) s)
      in if length data mod 4 = 1 then Inl InvalidCharacterError
         else if \<exists>c \<in> set data. base64_value c = None then Inl InvalidCharacterError
         else Inr (map char_of (sextets_to_bytes (map (\<lambda>c. the (base64_value c)) data))))"

text \<open>\<^verbatim>\<open>decode\<close>: byte \<open>i\<close> of the result is \<^verbatim>\<open>binaryString.charCodeAt(i)\<close>, stored into
  a \<^verbatim>\<open>Uint8Array\<close>.\<close>

definition decode :: "string \<Rightarrow> js_error + byte list" where
  "decode base64 =
     and_then (atob base64) (\<lambda>binaryString.
       Inr (map (\<lambda>c. word_of_int (of_char c mod 256)) binaryString))"

section \<open>The track mixer\<close>

text \<open>
  \<^verbatim>\<open>mixAudio\<close> hands three steps to the platform: the retrieval of the music
  (\<^verbatim>\<open>fetch\<close> and \<^verbatim>\<open>Response.arrayBuffer\<close>), its decoding (\<^verbatim>\<open>decodeAudioData\<close>) and the
  rendering of the node graph (\<^verbatim>\<open>OfflineAudioContext.startRendering\<close>). They are
  parameters of the model. A retrieval either rejects or gives a response with its
  \<^verbatim>\<open>ok\<close> flag, its status text and its body (\<open>None\<close> when reading the body rejects). The
  graph the code builds is recorded as it is handed over: the size of the destination,
  the speech source, and the music source with its \<^verbatim>\<open>loop\<close> flag and gain.
\<close>

datatype fetch_result = FetchRejected | FetchResponse bool string "byte list option"

record render_graph =
  rg_numberOfChannels :: nat
  rg_length :: nat
  rg_sampleRate :: nat
  rg_speech :: AudioBuffer
  rg_music :: AudioBuffer
  rg_music_loop :: bool
  rg_music_gain :: rat

record platform =
  fetch :: "string \<Rightarrow> fetch_result"
  decodeAudioData :: "byte list \<Rightarrow> AudioBuffer option"
  startRendering :: "render_graph \<Rightarrow> AudioBuffer"

text \<open>\<^verbatim>\<open>createBuffer\<close> and the \<^verbatim>\<open>OfflineAudioContext\<close> constructor throw a
  \<^verbatim>\<open>NotSupportedError\<close> for a channel count or a length of 0 (the rate the code passes,
  24000, is one every implementation supports).\<close>

definition createBuffer :: "nat \<Rightarrow> nat \<Rightarrow> nat \<Rightarrow> js_error + AudioBuffer" where
  "createBuffer numChannels len rate =
     (if numChannels = 0 \<or> len = 0 then Inl NotSupportedError
      else Inr \<lparr>ab_sampleRate = rate, ab_length = len,
                ab_channels = replicate numChannels (replicate len (Finite 0))\<rparr>)"

definition OfflineAudioContext :: "nat \<Rightarrow> nat \<Rightarrow> nat \<Rightarrow> js_error + render_graph" where
  "OfflineAudioContext numChannels len rate =
     (if numChannels = 0 \<or> len = 0 then Inl NotSupportedError
      else Inr \<lparr>rg_numberOfChannels = numChannels, rg_length = len, rg_sampleRate = rate,
                rg_speech = \<lparr>ab_sampleRate = rate, ab_length = 0, ab_channels = []\<rparr>,
                rg_music = \<lparr>ab_sampleRate = rate, ab_length = 0, ab_channels = []\<rparr>,
                rg_music_loop = False, rg_music_gain = 1\<rparr>)"

definition mixAudio :: "platform \<Rightarrow> byte list \<Rightarrow> string \<Rightarrow> rat \<Rightarrow> js_error + blob" where
  "mixAudio p speechPcmData musicUrl musicVolume =
     (let finalSampleRate = 24000
      in and_then (Int16Array speechPcmData) (\<lambda>speechDataInt16.
         let speechFrameCount = length speechDataInt16
         in and_then (createBuffer 1 speechFrameCount finalSampleRate) (\<lambda>created.
            let speechAudioBuffer =
                  created\<lparr>ab_channels := [map pcm16_to_float speechDataInt16]\<rparr>
            in case fetch p musicUrl of
                 FetchRejected \<Rightarrow> Inl TypeError
               | FetchResponse ok statusText body \<Rightarrow>
                   if \<not> ok then Inl (Error (''Failed to fetch music file: '' @ statusText))
                   else (case body of
                     None \<Rightarrow> Inl TypeError
                   | Some musicArrayBuffer \<Rightarrow>
                       (case decodeAudioData p musicArrayBuffer of
                          None \<Rightarrow> Inl EncodingError
                        | Some musicAudioBuffer \<Rightarrow>
                            and_then
                              (OfflineAudioContext 2 (ab_length speechAudioBuffer) finalSampleRate)
                              (\<lambda>mixContext.
                                 let mixedAudioBuffer =
                                       startRendering p
                                         (mixContext\<lparr>rg_speech := speechAudioBuffer,
                                            rg_music := musicAudioBuffer,
                                            rg_music_loop := True,
                                            rg_music_gain := musicVolume\<rparr>);
                                     mixedPcmData = audioBufferToPcm mixedAudioBuffer
                                 in pcmToWav mixedPcmData (int finalSampleRate)
                                      (int (numberOfChannels mixedAudioBuffer))))))))"

section \<open>The renderer of the mix\<close>

text \<open>
  Modelled from the spec: the rendering of the node graph, which the repository leaves to
  \<^verbatim>\<open>OfflineAudioContext.startRendering\<close> of the platform and of which \<^verbatim>\<open>src/\<close> holds
  only the call. The definitions follow step 3 of section 4.4 of the specification, with
  the exact sums and products it writes.
\<close>

text \<open>Modelled from the spec: the music signal (absent from \<^verbatim>\<open>src/\<close>) "is looped: if its
  frame count is less than N, it repeats from the start seamlessly; if greater, it is
  truncated to N".\<close>

definition looped :: "'a list \<Rightarrow> nat \<Rightarrow> 'a list" where
  "looped music n = take n (concat (replicate n music))"

text \<open>Modelled from the spec: the music channel (absent from \<^verbatim>\<open>src/\<close>) that is "added
  into the corresponding output channel (mono music feeds both; stereo music feeds
  channel-for-channel)". A buffer without channels feeds nothing.\<close>

definition music_for_channel :: "AudioBuffer \<Rightarrow> nat \<Rightarrow> float list" where
  "music_for_channel music c =
     (let channels = ab_channels music
      in if c < length channels then channels ! c
         else if channels \<noteq> [] then channels ! 0
         else [])"

text \<open>Modelled from the spec: a signal that has ended (absent from \<^verbatim>\<open>src/\<close>) adds
  silence to the output.\<close>

definition sample_or_silence :: "float list \<Rightarrow> nat \<Rightarrow> float" where
  "sample_or_silence signal i = (if i < length signal then signal ! i else Finite 0)"

text \<open>Modelled from the spec: the render (absent from \<^verbatim>\<open>src/\<close>) gives "a stereo output
  of exactly N frames"; each output channel "begins as the speech signal", and the music
  is added, "each music sample pre-scaled by gain before summation", so that "each output
  sample is the sum speech_sample + gain * music_sample; no post-sum normalization or
  limiting is applied". The music loops when the source node is set to loop, as the code
  sets it.\<close>

definition spec_render :: "render_graph \<Rightarrow> AudioBuffer" where
  "spec_render g =
     (let n = rg_length g;
          speech = (case ab_channels (rg_speech g) of [] \<Rightarrow> [] | channel # _ \<Rightarrow> channel);
          output = (\<lambda>c.
            let played = (if rg_music_loop g then looped (music_for_channel (rg_music g) c) n
                          else take n (music_for_channel (rg_music g) c));
                scaled = map (float_times (Finite (rg_music_gain g))) played
            in map (\<lambda>i. float_plus (sample_or_silence speech i) (sample_or_silence scaled i))
                 [0..<n])
      in \<lparr>ab_sampleRate = rg_sampleRate g, ab_length = n,
          ab_channels = map output [0..<rg_numberOfChannels g]\<rparr>)"

section \<open>The pipeline\<close>

text \<open>
  The body of \<^verbatim>\<open>handleGenerateAudio\<close> from the payload on (lines 53 to 70 of
  \<^verbatim>\<open>App.tsx\<close>): the payload is what the speech provider returned (\<open>None\<close> for
  \<^verbatim>\<open>null\<close>), the selection is the state \<^verbatim>\<open>backgroundMusic\<close> with the uploaded
  \<^verbatim>\<open>customMusicUrl\<close> (\<open>None\<close> for \<^verbatim>\<open>null\<close>). An error is what the \<^verbatim>\<open>catch\<close> block
  receives: no blob is made. The check on line 63 repeats the condition of line 62
  negated and cannot fire; its message is written in Latin letters here.
\<close>

definition selectedMusicUrl :: "string \<Rightarrow> string option \<Rightarrow> string option" where
  "selectedMusicUrl backgroundMusic customMusicUrl =
     (if backgroundMusic = ''custom'' then customMusicUrl else Some backgroundMusic)"

text \<open>A string that may be \<^verbatim>\<open>null\<close> is truthy when it is neither \<^verbatim>\<open>null\<close> nor empty.\<close>

definition truthy :: "string option \<Rightarrow> bool" where
  "truthy s = (s \<noteq> None \<and> s \<noteq> Some [])"

definition assemble ::
  "platform \<Rightarrow> string option \<Rightarrow> string \<Rightarrow> string option \<Rightarrow> rat \<Rightarrow> js_error + blob" where
  "assemble p base64Audio backgroundMusic customMusicUrl musicVolume =
     (if \<not> truthy base64Audio
      then Inl (Error ''Received empty audio data from the API.'')
      else and_then (decode (the base64Audio)) (\<lambda>pcmData.
        let selected = selectedMusicUrl backgroundMusic customMusicUrl
        in if truthy selected \<and> selected \<noteq> Some ''none''
           then (if \<not> truthy selected
                 then Inl (Error ''Please upload a custom music file to continue.'')
                 else mixAudio p pcmData (the selected) musicVolume)
           else pcmToWav pcmData 24000 1))"

section \<open>Reading a WAV blob\<close>

text \<open>What a reader of the blob sees: the little-endian fields of \<^verbatim>\<open>DataView.getUint16\<close>
  and \<^verbatim>\<open>DataView.getUint32\<close>, the character codes of a tag, and the 44 bytes of the
  header as the layout table gives them.\<close>

definition getUint16 :: "byte list \<Rightarrow> nat \<Rightarrow> int" where
  "getUint16 view off = uint (view ! off) + 256 * uint (view ! (off + 1))"

definition getUint32 :: "byte list \<Rightarrow> nat \<Rightarrow> int" where
  "getUint32 view off =
     uint (view ! off) + 256 * uint (view ! (off + 1)) + 65536 * uint (view ! (off + 2))
       + 16777216 * uint (view ! (off + 3))"

definition ascii :: "string \<Rightarrow> byte list" where
  "ascii s = map (\<lambda>c. word_of_int (of_char c mod 256)) s"

definition blockAlign_of :: "int \<Rightarrow> number" where
  "blockAlign_of numChannels = number_times (Integral numChannels) (Integral 2)"

definition byteRate_of :: "int \<Rightarrow> int \<Rightarrow> number" where
  "byteRate_of sampleRate numChannels =
     number_times (Integral sampleRate) (blockAlign_of numChannels)"

definition wav_header :: "int \<Rightarrow> int \<Rightarrow> int \<Rightarrow> byte list" where
  "wav_header dataSize sampleRate numChannels =
     ascii ''RIFF'' @ bytes32 (36 + dataSize) True @ ascii ''WAVE'' @
     ascii ''fmt '' @ bytes32 16 True @ bytes16 1 True @ bytes16 numChannels True @
     bytes32 sampleRate True @
     bytes32 (integer_or_zero (byteRate_of sampleRate numChannels)) True @
     bytes16 (integer_or_zero (blockAlign_of numChannels)) True @ bytes16 16 True @
     ascii ''data'' @ bytes32 dataSize True"

text \<open>A view whose first bytes are written and whose last \<open>n\<close> bytes are still zero.\<close>

definition filled :: "byte list \<Rightarrow> nat \<Rightarrow> byte list" where
  "filled pre n = pre @ replicate n 0"

section \<open>What the specification asks of the operations\<close>

text \<open>The layout the specification gives for the blob of a buffer of samples, read back
  from the result of the encoder: the length, the four tags, the sizes, the byte rate,
  the block alignment, the bit depth and the samples.\<close>

definition wav_layout :: "byte list \<Rightarrow> int \<Rightarrow> int \<Rightarrow> js_error + blob \<Rightarrow> bool" where
  "wav_layout pcmData sampleRate numChannels r =
     (case r of
        Inl e \<Rightarrow> False
      | Inr b \<Rightarrow>
          (let bytes = blob_bytes b;
               samples = int16_elements pcmData;
               dataSize = int (length samples) * 2
           in int (length bytes) = 44 + dataSize \<and>
              take 4 bytes = ascii ''RIFF'' \<and>
              take 4 (drop 8 bytes) = ascii ''WAVE'' \<and>
              take 4 (drop 12 bytes) = ascii ''fmt '' \<and>
              take 4 (drop 36 bytes) = ascii ''data'' \<and>
              getUint32 bytes 4 = 36 + dataSize \<and>
              getUint32 bytes 40 = dataSize \<and>
              getUint32 bytes 28 = sampleRate * numChannels * 2 \<and>
              getUint16 bytes 32 = numChannels * 2 \<and>
              getUint16 bytes 34 = 16 \<and>
              drop 44 bytes = concat (map (\<lambda>s. bytes16 s True) samples)))"

text \<open>The result of the direct path for decoded speech bytes: a blob for one channel at
  24000 Hz whose data are those bytes.\<close>

definition direct_path_output :: "byte list \<Rightarrow> js_error + blob \<Rightarrow> bool" where
  "direct_path_output pcmData r =
     (case r of
        Inl e \<Rightarrow> False
      | Inr b \<Rightarrow>
          getUint16 (blob_bytes b) 22 = 1 \<and>
          getUint32 (blob_bytes b) 24 = 24000 \<and>
          getUint32 (blob_bytes b) 40 = int (length (int16_elements pcmData)) * 2 \<and>
          drop 44 (blob_bytes b) = pcmData)"

text \<open>The music cannot be retrieved when the request rejects (an unreachable address),
  when the response is not \<^verbatim>\<open>ok\<close>, or when reading its body rejects. The errors
  \<^verbatim>\<open>mixAudio\<close> raises for these are the \<^verbatim>\<open>TypeError\<close> of the platform and its own
  \<^verbatim>\<open>Error\<close> whose message starts with \<^verbatim>\<open>Failed to fetch music file: \<close>.\<close>

definition retrieval_fails :: "platform \<Rightarrow> string \<Rightarrow> bool" where
  "retrieval_fails p musicUrl =
     (case fetch p musicUrl of
        FetchRejected \<Rightarrow> True
      | FetchResponse ok statusText body \<Rightarrow> \<not> ok \<or> body = None)"

definition music_fetch_error :: "js_error \<Rightarrow> bool" where
  "music_fetch_error e =
     (case e of
        TypeError \<Rightarrow> True
      | Error message \<Rightarrow> take 28 message = ''Failed to fetch music file: ''
      | _ \<Rightarrow> False)"

text \<open>Valid base64 is the form RFC 4648 gives an encoding: characters of the alphabet in
  groups of four, the last group padded with one or two \<^verbatim>\<open>=\<close> in place of its last
  characters. The encoding of RFC 4648 is the reference for what a valid string denotes.\<close>

definition base64_alphabet :: "char \<Rightarrow> bool" where
  "base64_alphabet c =
     (c \<in> set ''ABCDEFGHIJKLMNOPQRSTUVWXYZabcdefghijklmnopqrstuvwxyz0123456789+/'')"

fun rfc4648_valid :: "string \<Rightarrow> bool" where
  "rfc4648_valid [] = True"
| "rfc4648_valid [a, b, c, d] =
     (base64_alphabet a \<and> base64_alphabet b \<and>
      ((base64_alphabet c \<and> (base64_alphabet d \<or> d = CHR ''='')) \<or>
       (c = CHR ''='' \<and> d = CHR ''='')))"
| "rfc4648_valid (a # b # c # d # rest) =
     (base64_alphabet a \<and> base64_alphabet b \<and> base64_alphabet c \<and> base64_alphabet d \<and>
      rfc4648_valid rest)"
| "rfc4648_valid _ = False"

definition base64_char :: "nat \<Rightarrow> char" where
  "base64_char n =
     (if n < 26 then char_of (n + 65)
      else if n < 52 then char_of (n + 71)
      else if n < 62 then char_of (n - 4)
      else if n = 62 then CHR ''+''
      else CHR ''/'')"

fun base64_encode :: "byte list \<Rightarrow> string" where
  "base64_encode (x # y # z # rest) =
     base64_char (unat x div 4) # base64_char (unat x mod 4 * 16 + unat y div 16) #
     base64_char (unat y mod 16 * 4 + unat z div 64) # base64_char (unat z mod 64) #
     base64_encode rest"
| "base64_encode [x, y] =
     [base64_char (unat x div 4), base64_char (unat x mod 4 * 16 + unat y div 16),
      base64_char (unat y mod 16 * 4), CHR ''='']"
| "base64_encode [x] =
     [base64_char (unat x div 4), base64_char (unat x mod 4 * 16), CHR ''='', CHR ''='']"
| "base64_encode [] = []"

text \<open>An \<^verbatim>\<open>AudioBuffer\<close> of the platform has at least one channel and one frame, and
  every channel has as many samples as the buffer has frames.\<close>

definition well_formed :: "AudioBuffer \<Rightarrow> bool" where
  "well_formed b =
     (ab_channels b \<noteq> [] \<and> 0 < ab_length b \<and>
      list_all (\<lambda>channel. length channel = ab_length b) (ab_channels b))"

text \<open>The graph \<^verbatim>\<open>mixAudio\<close> hands to the renderer for speech bytes, a decoded music
  buffer and a volume: a stereo destination of as many frames as the speech has samples,
  at 24000 Hz, the speech as one channel, and the music looping behind its gain.\<close>

definition mix_graph :: "byte list \<Rightarrow> AudioBuffer \<Rightarrow> rat \<Rightarrow> render_graph" where
  "mix_graph speechPcmData musicAudioBuffer musicVolume =
     \<lparr>rg_numberOfChannels = 2, rg_length = length speechPcmData div 2,
      rg_sampleRate = 24000,
      rg_speech =
        \<lparr>ab_sampleRate = 24000, ab_length = length speechPcmData div 2,
         ab_channels = [map pcm16_to_float (int16_elements speechPcmData)]\<rparr>,
      rg_music = musicAudioBuffer, rg_music_loop = True,
      rg_music_gain = musicVolume\<rparr>"

text \<open>The sample the specification gives for channel \<open>c\<close> of frame \<open>i\<close> of the mix:
  the speech sample plus the gain times the music sample, the music taken at frame
  \<open>i mod M\<close> of its \<open>M\<close> frames.\<close>

definition mixed_sample :: "byte list \<Rightarrow> AudioBuffer \<Rightarrow> rat \<Rightarrow> nat \<Rightarrow> nat \<Rightarrow> float" where
  "mixed_sample speechPcmData music gain c i =
     float_plus (pcm16_to_float (int16_elements speechPcmData ! i))
       (float_times (Finite gain) (music_for_channel music c ! (i mod ab_length music)))"

text \<open>A blob of \<open>n\<close> stereo frames at 24000 Hz: 4 bytes of data for each frame.\<close>

definition mix_frame_count :: "nat \<Rightarrow> js_error + blob \<Rightarrow> bool" where
  "mix_frame_count n r =
     (case r of
        Inl e \<Rightarrow> False
      | Inr b \<Rightarrow>
          length (blob_bytes b) = 44 + n * 4 \<and>
          getUint16 (blob_bytes b) 22 = 2 \<and>
          getUint32 (blob_bytes b) 24 = 24000 \<and>
          getUint16 (blob_bytes b) 32 = 4)"

text \<open>A platform whose network is unreachable, for the examples.\<close>

definition offline_platform :: platform where
  "offline_platform =
     \<lparr>fetch = (\<lambda>url. FetchRejected), decodeAudioData = (\<lambda>bytes. None),
      startRendering = rg_speech\<rparr>"

text \<open>A platform whose server answers every request with \<^verbatim>\<open>404 Not Found\<close>.\<close>

definition not_found_platform :: platform where
  "not_found_platform =
     \<lparr>fetch = (\<lambda>url. FetchResponse False ''Not Found'' (Some [])),
      decodeAudioData = (\<lambda>bytes. None), startRendering = rg_speech\<rparr>"

text \<open>A platform that delivers a mono music track of two frames and renders as the
  specification says.\<close>

definition studio_platform :: platform where
  "studio_platform =
     \<lparr>fetch = (\<lambda>url. FetchResponse True ''OK'' (Some [])),
      decodeAudioData =
        (\<lambda>bytes. Some \<lparr>ab_sampleRate = 24000, ab_length = 2,
                         ab_channels = [[Finite 1, Finite (- 1 / 2)]]\<rparr>),
      startRendering = spec_render\<rparr>"

section \<open>Properties of the DataView writes\<close>


lemma store_bytes_length [simp]: "length (store_bytes view off bs) = length view"
  by (induction bs arbitrary: view off) auto

lemma store_bytes_at_end:
  "length bs \<le> length zs \<Longrightarrow>
   store_bytes (pre @ zs) (length pre) bs = pre @ bs @ drop (length bs) zs"
proof (induction bs arbitrary: pre zs)
  case Nil
  then show ?case by simp
next
  case (Cons b bs)
  then obtain z zs' where zs: "zs = z # zs'" by (cases zs) auto
  have "store_bytes ((pre @ [b]) @ zs') (length (pre @ [b])) bs
        = (pre @ [b]) @ bs @ drop (length bs) zs'"
    using Cons.prems zs by (intro Cons.IH) simp
  then show ?case by (simp add: zs)
qed

lemma set_bytes_filled:
  assumes "off = length pre" and "length bs \<le> n"
  shows "set_bytes off bs (filled pre n) = Inr (filled (pre @ bs) (n - length bs))"
  using assms store_bytes_at_end [of bs "replicate n 0" pre]
  by (simp add: set_bytes_def filled_def)

lemma writeString_filled:
  "off = length pre \<Longrightarrow> length s \<le> n \<Longrightarrow>
   writeString off s (filled pre n)
     = Inr (filled (pre @ map (\<lambda>c. word_of_int (of_char c mod 256)) s) (n - length s))"
proof (induction s arbitrary: off pre n)
  case Nil
  then show ?case by simp
next
  case (Cons c cs)
  have step: "setUint8 off (of_char c) (filled pre n)
               = Inr (filled (pre @ [word_of_int (of_char c mod 256)]) (n - 1))"
    using Cons.prems by (simp add: setUint8_def set_bytes_filled)
  have rec: "writeString (Suc off) cs (filled (pre @ [word_of_int (of_char c mod 256)]) (n - 1))
              = Inr (filled ((pre @ [word_of_int (of_char c mod 256)])
                       @ map (\<lambda>c. word_of_int (of_char c mod 256)) cs) (n - 1 - length cs))"
    using Cons.prems by (intro Cons.IH) auto
  show ?case
    using step rec by (simp add: and_then_def)
qed

lemma write_pcm_filled:
  "length pre = 44 + i * 2 \<Longrightarrow> i \<le> length pcm \<Longrightarrow> n = 2 * (length pcm - i) \<Longrightarrow>
   write_pcm i pcm (filled pre n)
     = Inr (pre @ concat (map (\<lambda>v. bytes16 v True) (drop i pcm)))"
proof (induction "length pcm - i" arbitrary: i pre n)
  case 0
  then show ?case by (subst write_pcm.simps) (simp add: filled_def)
next
  case (Suc k)
  then have lt: "i < length pcm" by simp
  have len: "length (bytes16 (pcm ! i) True) = 2" by (simp add: bytes16_def Let_def)
  have step: "setInt16 (44 + i * 2) (pcm ! i) True (filled pre n)
               = Inr (filled (pre @ bytes16 (pcm ! i) True) (n - 2))"
    using Suc.prems lt len by (simp add: setInt16_def set_bytes_filled)
  have rec: "write_pcm (i + 1) pcm (filled (pre @ bytes16 (pcm ! i) True) (n - 2))
             = Inr ((pre @ bytes16 (pcm ! i) True)
                    @ concat (map (\<lambda>v. bytes16 v True) (drop (i + 1) pcm)))"
    using Suc.prems Suc.hyps(2) lt len by (intro Suc.hyps(1)) auto
  have "drop i pcm = pcm ! i # drop (i + 1) pcm"
    using lt by (simp add: Cons_nth_drop_Suc)
  with step rec lt show ?case
    by (subst write_pcm.simps) (simp add: and_then_def)
qed

lemma bytes16_int16_of_bytes: "bytes16 (int16_of_bytes lo hi) True = [lo, hi]"
proof -
  define a where "a = uint lo"
  define b where "b = uint hi"
  have a: "0 \<le> a" "a < 256" and b: "0 \<le> b" "b < 256"
    using uint_lt2p [of lo] uint_lt2p [of hi] by (simp_all add: a_def b_def)
  have m: "int16_of_bytes lo hi mod 65536 = a + 256 * b"
    using a b by (auto simp: int16_of_bytes_def Let_def a_def [symmetric] b_def [symmetric])
  have "(a + 256 * b) mod 256 = a" "(a + 256 * b) div 256 = b"
    using a b by auto
  moreover have "word_of_int a = lo" "word_of_int b = hi"
    by (simp_all add: a_def b_def)
  ultimately show ?thesis
    by (simp add: bytes16_def Let_def m)
qed

lemma int16_elements_roundtrip:
  "even (length bs) \<Longrightarrow> concat (map (\<lambda>v. bytes16 v True) (int16_elements bs)) = bs"
proof (induction bs rule: int16_elements.induct)
  case (1 lo hi rest)
  then show ?case by (simp add: bytes16_int16_of_bytes)
qed auto

lemma int16_elements_length: "length (int16_elements bs) = length bs div 2"
  by (induction bs rule: int16_elements.induct) auto


lemma length_bytes16 [simp]: "length (bytes16 v e) = 2"
  by (simp add: bytes16_def Let_def)

lemma length_bytes32 [simp]: "length (bytes32 v e) = 4"
  by (simp add: bytes32_def Let_def)

lemma length_wav_header [simp]: "length (wav_header d r c) = 44"
  by (simp add: wav_header_def ascii_def)

lemma and_then_Inr [simp]: "and_then r Inr = r"
  by (cases r) (simp_all add: and_then_def)

lemma run_writes_single: "run_writes [w] view = w view"
  by (cases "w view") (simp_all add: and_then_def)

lemma header_writes:
  "run_writes
     [writeString 0 ''RIFF'', setUint32 4 chunkSize True, writeString 8 ''WAVE'',
      writeString 12 ''fmt '', setUint32 16 16 True, setUint16 20 1 True,
      setUint16 22 numChannels True, setUint32 24 sampleRate True,
      setUint32 28 byteRate True, setUint16 32 blockAlign True, setUint16 34 16 True,
      writeString 36 ''data'', setUint32 40 dataSize True, w]
     (filled [] (44 + n))
   = w (filled (ascii ''RIFF'' @ bytes32 chunkSize True @ ascii ''WAVE'' @
     ascii ''fmt '' @ bytes32 16 True @ bytes16 1 True @ bytes16 numChannels True @
     bytes32 sampleRate True @ bytes32 byteRate True @
     bytes16 blockAlign True @ bytes16 16 True @
     ascii ''data'' @ bytes32 dataSize True) n)"
  by (simp add: writeString_filled set_bytes_filled setUint32_def setUint16_def and_then_def
        ascii_def run_writes_single run_writes.simps(2) [of _ "_ # _"]
        del: writeString.simps run_writes.simps)

lemma pcmToWav_even:
  assumes "even (length pcmData)"
  shows "pcmToWav pcmData sampleRate numChannels =
           Inr \<lparr>blob_bytes = wav_header (int (length pcmData)) sampleRate numChannels @ pcmData,
                blob_type = ''audio/wav''\<rparr>"
proof -
  let ?pcm = "int16_elements pcmData"
  have n: "int (length ?pcm) * 2 = int (length pcmData)"
    using assms by (auto simp: int16_elements_length elim: evenE)
  have buf: "replicate (nat (44 + int (length pcmData))) (0 :: byte)
             = filled [] (44 + 2 * length ?pcm)"
    using assms by (simp add: filled_def int16_elements_length nat_add_distrib)
  have data: "write_pcm 0 ?pcm (filled (wav_header (int (length pcmData)) sampleRate numChannels) (2 * length ?pcm))
     = Inr (wav_header (int (length pcmData)) sampleRate numChannels @ pcmData)"
    using assms by (simp add: write_pcm_filled int16_elements_roundtrip)
  show ?thesis
    using assms
    by (simp add: pcmToWav_def Int16Array_def and_then_def Let_def n buf header_writes
          data [unfolded wav_header_def blockAlign_of_def byteRate_of_def]
          wav_header_def blockAlign_of_def byteRate_of_def
          del: run_writes.simps number_times.simps)
qed

lemma pcmToWav_odd:
  "odd (length pcmData) \<Longrightarrow> pcmToWav pcmData sampleRate numChannels = Inl RangeError"
  by (simp add: pcmToWav_def Int16Array_def and_then_def odd_iff_mod_2_eq_one)



lemma le32_recompose:
  fixes u :: int
  assumes "0 \<le> u" "u < 4294967296"
  shows "u mod 256 + 256 * (u div 256 mod 256) + 65536 * (u div 65536 mod 256)
          + 16777216 * (u div 16777216) = u"
proof -
  define a where "a = u div 256"
  define b where "b = a div 256"
  define c where "c = b div 256"
  have q2: "u div 65536 = b"
    using zdiv_zmult2_eq [of 256 u 256] by (simp add: a_def b_def)
  have q3: "u div 16777216 = c"
    using zdiv_zmult2_eq [of 256 u 65536] q2 by (simp add: c_def)
  have 1: "u = 256 * a + u mod 256" by (simp add: a_def)
  have 2: "a = 256 * b + a mod 256" by (simp add: b_def)
  have 3: "b = 256 * c + b mod 256" by (simp add: c_def)
  show ?thesis
    unfolding q2 q3 a_def [symmetric]
    using 1 2 3 by linarith
qed


lemma uint_byte_of_int: "uint (word_of_int k :: byte) = k mod 256"
  by (simp add: uint_word_of_int)

lemma bytes32_le:
  "bytes32 v True = [word_of_int (v mod 4294967296 mod 256),
     word_of_int (v mod 4294967296 div 256 mod 256),
     word_of_int (v mod 4294967296 div 65536 mod 256),
     word_of_int (v mod 4294967296 div 16777216)]"
  by (simp add: bytes32_def Let_def)

lemma getUint32_bytes32:
  "getUint32 (pre @ bytes32 v True @ rest) (length pre) = v mod 4294967296"
proof -
  define u where "u = v mod 4294967296"
  have u: "0 \<le> u" "u < 4294967296" by (simp_all add: u_def)
  have small: "u div 16777216 mod 256 = u div 16777216"
    using u by (intro mod_pos_pos_trivial) (simp_all add: div_less_iff_less_mult)
  have nth: "(pre @ bytes32 v True @ rest) ! length pre = word_of_int (u mod 256)"
    "(pre @ bytes32 v True @ rest) ! (length pre + 1) = word_of_int (u div 256 mod 256)"
    "(pre @ bytes32 v True @ rest) ! (length pre + 2) = word_of_int (u div 65536 mod 256)"
    "(pre @ bytes32 v True @ rest) ! (length pre + 3) = word_of_int (u div 16777216)"
    by (simp_all add: bytes32_le nth_append u_def)
  show ?thesis
    unfolding getUint32_def nth uint_byte_of_int mod_mod_trivial small
    using le32_recompose [OF u] by (simp add: u_def)
qed


lemma bytes16_le:
  "bytes16 v True = [word_of_int (v mod 65536 mod 256), word_of_int (v mod 65536 div 256)]"
  by (simp add: bytes16_def Let_def)

lemma getUint16_bytes16:
  "getUint16 (pre @ bytes16 v True @ rest) (length pre) = v mod 65536"
proof -
  define u where "u = v mod 65536"
  have u: "0 \<le> u" "u < 65536" by (simp_all add: u_def)
  have small: "u div 256 mod 256 = u div 256"
    using u by (intro mod_pos_pos_trivial) (simp_all add: div_less_iff_less_mult)
  have nth: "(pre @ bytes16 v True @ rest) ! length pre = word_of_int (u mod 256)"
    "(pre @ bytes16 v True @ rest) ! (length pre + 1) = word_of_int (u div 256)"
    by (simp_all add: bytes16_le nth_append u_def)
  have "u mod 256 + 256 * (u div 256) = u" by simp
  then show ?thesis
    unfolding getUint16_def nth uint_byte_of_int mod_mod_trivial small
    by (simp add: u_def)
qed

lemma round_binary64_exact: "\<bar>x\<bar> < 9007199254740992 \<Longrightarrow> round_binary64 x = Integral x"
  by (simp add: round_binary64_def)

lemma blockAlign_of_exact:
  "\<bar>numChannels * 2\<bar> < 9007199254740992 \<Longrightarrow>
   integer_or_zero (blockAlign_of numChannels) = numChannels * 2"
  by (simp add: blockAlign_of_def round_binary64_exact integer_or_zero_def)

lemma byteRate_of_exact:
  "\<bar>numChannels * 2\<bar> < 9007199254740992 \<Longrightarrow>
   \<bar>sampleRate * (numChannels * 2)\<bar> < 9007199254740992 \<Longrightarrow>
   integer_or_zero (byteRate_of sampleRate numChannels) = sampleRate * (numChannels * 2)"
  by (simp add: byteRate_of_def blockAlign_of_def round_binary64_exact integer_or_zero_def)

lemma floor_log2_eqI: "2 ^ k \<le> n \<Longrightarrow> n < 2 ^ Suc k \<Longrightarrow> floor_log2 n = k"
proof (induction k arbitrary: n)
  case 0
  then show ?case by (subst floor_log2.simps) simp
next
  case (Suc k)
  have "2 ^ k \<le> n div 2" "n div 2 < 2 ^ Suc k"
    using Suc.prems by (auto simp: less_mult_imp_div_less)
  then have "floor_log2 (n div 2) = k" by (rule Suc.IH)
  moreover have "\<not> n < 2"
  proof -
    have p: "(1 :: nat) \<le> 2 ^ k" by simp
    from Suc.prems(1) have "2 * 2 ^ k \<le> n" by simp
    with p show ?thesis by linarith
  qed
  ultimately show ?case by (subst floor_log2.simps) simp
qed

lemma byteRate_rounding_example:
  "integer_or_zero (byteRate_of 9007199254740991 3) = 54043195528445944"
proof -
  have l: "floor_log2 (nat \<bar>54043195528445946\<bar>) = 55"
    by (rule floor_log2_eqI) simp_all
  have "round_binary64 54043195528445946 = Integral 54043195528445944"
    unfolding round_binary64_def l by (simp add: Let_def)
  then show ?thesis
    by (simp add: byteRate_of_def blockAlign_of_def round_binary64_exact integer_or_zero_def)
qed

lemma wav_header_tags:
  "take 4 (wav_header d r c @ data) = ascii ''RIFF''"
  "take 4 (drop 8 (wav_header d r c @ data)) = ascii ''WAVE''"
  "take 4 (drop 12 (wav_header d r c @ data)) = ascii ''fmt ''"
  "take 4 (drop 36 (wav_header d r c @ data)) = ascii ''data''"
  by (simp_all add: wav_header_def ascii_def bytes32_le bytes16_le)

lemma getUint32_field:
  assumes "take 4 (drop off view) = bytes32 v True"
  shows "getUint32 view off = v mod 4294967296"
proof -
  have eq: "view = take off view @ bytes32 v True @ drop (off + 4) view"
    using assms by (metis append_take_drop_id drop_drop add.commute)
  have "length (take 4 (drop off view)) = 4"
    unfolding assms by simp
  then have len: "length (take off view) = off" by simp
  show ?thesis
    using getUint32_bytes32 [of "take off view" v "drop (off + 4) view"] eq len by simp
qed

lemma getUint16_field:
  assumes "take 2 (drop off view) = bytes16 v True"
  shows "getUint16 view off = v mod 65536"
proof -
  have eq: "view = take off view @ bytes16 v True @ drop (off + 2) view"
    using assms by (metis append_take_drop_id drop_drop add.commute)
  have "length (take 2 (drop off view)) = 2"
    unfolding assms by simp
  then have len: "length (take off view) = off" by simp
  show ?thesis
    using getUint16_bytes16 [of "take off view" v "drop (off + 2) view"] eq len by simp
qed

lemma wav_header_fields:
  "getUint32 (wav_header d r c @ data) 4 = (36 + d) mod 4294967296"
  "getUint32 (wav_header d r c @ data) 16 = 16"
  "getUint16 (wav_header d r c @ data) 20 = 1"
  "getUint16 (wav_header d r c @ data) 22 = c mod 65536"
  "getUint32 (wav_header d r c @ data) 24 = r mod 4294967296"
  "getUint32 (wav_header d r c @ data) 28 = integer_or_zero (byteRate_of r c) mod 4294967296"
  "getUint16 (wav_header d r c @ data) 32 = integer_or_zero (blockAlign_of c) mod 65536"
  "getUint16 (wav_header d r c @ data) 34 = 16"
  "getUint32 (wav_header d r c @ data) 40 = d mod 4294967296"
  by (simp_all add: getUint32_field [where v = "36 + d"] getUint32_field [where v = 16]
        getUint16_field [where v = 1] getUint16_field [where v = c]
        getUint32_field [where v = r]
        getUint32_field [where v = "integer_or_zero (byteRate_of r c)"]
        getUint16_field [where v = "integer_or_zero (blockAlign_of c)"]
        getUint16_field [where v = 16]
        getUint32_field [where v = d] wav_header_def ascii_def)

text \<open>Above \<open>2\<^sup>5\<^sup>3\<close> the byte rate is the rounded product: for the sample rate
  \<open>2\<^sup>5\<^sup>3 - 1\<close> and 3 channels the exact product ends in \<^verbatim>\<open>...fffa\<close> and the field
  holds \<^verbatim>\<open>0xfffffff8\<close>.\<close>

lemma pcmToWav_rounds_byteRate:
  "getUint32 (blob_bytes (projr (pcmToWav [] 9007199254740991 3))) 28 = 4294967288"
proof -
  have "pcmToWav [] 9007199254740991 3 =
          Inr \<lparr>blob_bytes = wav_header 0 9007199254740991 3 @ [], blob_type = ''audio/wav''\<rparr>"
    using pcmToWav_even [of "[]" 9007199254740991 3] by simp
  then show ?thesis
    by (simp only: sum.sel blob.simps wav_header_fields byteRate_rounding_example) simp
qed

section \<open>Properties of the sample converter\<close>


lemma ToInt16_in_range:
  assumes "- 32768 \<le> trunc_toward_zero q" "trunc_toward_zero q \<le> 32767"
  shows "ToInt16 (Finite q) = trunc_toward_zero q"
proof (cases "trunc_toward_zero q < 0")
  case True
  have "(trunc_toward_zero q + 65536) mod 65536 = trunc_toward_zero q + 65536"
    using assms True by (intro mod_pos_pos_trivial) auto
  then have "trunc_toward_zero q mod 65536 = trunc_toward_zero q + 65536"
    by simp
  then show ?thesis using assms True by (simp add: Let_def)
next
  case False
  then have "trunc_toward_zero q mod 65536 = trunc_toward_zero q"
    using assms by simp
  then show ?thesis using assms False by (simp add: Let_def)
qed

lemma clamp_Finite:
  "Math_max (Finite (- 1)) (Math_min (Finite 1) (Finite q)) = Finite (max (- 1) (min 1 q))"
  by (simp add: Math_max_def Math_min_def max_def min_def)

lemma trunc_bounds_neg:
  assumes "- 1 \<le> v" "v < 0"
  shows "- 32768 \<le> trunc_toward_zero (v * 32768)" "trunc_toward_zero (v * 32768) \<le> 0"
proof -
  have "- 32768 \<le> v * 32768" "v * 32768 < 0" using assms by auto
  then show "- 32768 \<le> trunc_toward_zero (v * 32768)" "trunc_toward_zero (v * 32768) \<le> 0"
    by (auto simp: trunc_toward_zero_def le_ceiling_iff ceiling_le_iff)
qed

lemma trunc_bounds_pos:
  assumes "0 \<le> v" "v \<le> 1"
  shows "0 \<le> trunc_toward_zero (v * 32767)" "trunc_toward_zero (v * 32767) \<le> 32767"
proof -
  have "0 \<le> v * 32767" "v * 32767 \<le> 32767" using assms by auto
  then show "0 \<le> trunc_toward_zero (v * 32767)" "trunc_toward_zero (v * 32767) \<le> 32767"
    by (auto simp: trunc_toward_zero_def le_floor_iff floor_le_iff)
qed

lemma float_to_pcm16_Finite:
  "float_to_pcm16 (Finite q) =
     trunc_toward_zero (let v = max (- 1) (min 1 q) in if v < 0 then v * 32768 else v * 32767)"
proof -
  define v where "v = max (- 1) (min 1 q)"
  have v: "- 1 \<le> v" "v \<le> 1" by (auto simp: v_def)
  show ?thesis
  proof (cases "v < 0")
    case True
    then show ?thesis
      using trunc_bounds_neg [OF v(1) True]
      by (simp add: float_to_pcm16_def clamp_Finite v_def [symmetric] ToInt16_in_range
            del: ToInt16.simps)
  next
    case False
    then have "0 \<le> v" by simp
    from trunc_bounds_pos [OF this v(2)] False show ?thesis
      by (simp add: float_to_pcm16_def clamp_Finite v_def [symmetric] ToInt16_in_range
            del: ToInt16.simps)
  qed
qed

lemma float_to_pcm16_range: "- 32768 \<le> float_to_pcm16 f \<and> float_to_pcm16 f \<le> 32767"
proof (cases f)
  case (Finite q)
  define v where "v = max (- 1) (min 1 q)"
  have v: "- 1 \<le> v" "v \<le> 1" by (auto simp: v_def)
  show ?thesis
  proof (cases "v < 0")
    case True
    with trunc_bounds_neg [OF v(1) True] show ?thesis
      by (simp add: Finite float_to_pcm16_Finite v_def [symmetric])
  next
    case False
    then have "0 \<le> v" by simp
    from trunc_bounds_pos [OF this v(2)] False show ?thesis
      by (simp add: Finite float_to_pcm16_Finite v_def [symmetric])
  qed
qed (simp_all add: float_to_pcm16_def Math_max_def Math_min_def trunc_toward_zero_def)

lemma float_to_pcm16_special:
  "float_to_pcm16 PosInfinity = 32767" "float_to_pcm16 NegInfinity = - 32768"
  "float_to_pcm16 NaN = 0"
  by (simp_all add: float_to_pcm16_def Math_max_def Math_min_def trunc_toward_zero_def)

lemma roundtrip_nonpos:
  assumes "- 32768 \<le> s" "s \<le> 0"
  shows "float_to_pcm16 (pcm16_to_float s) = s"
proof -
  have m: "max (- 1) (min 1 (of_int s / 32768 :: rat)) = of_int s / 32768"
    using assms by (simp add: max_def min_def divide_le_eq le_divide_eq)
  show ?thesis
    using assms
    by (simp add: pcm16_to_float_def float_to_pcm16_Finite m trunc_toward_zero_def
          divide_less_0_iff Let_def)
qed

lemma roundtrip_pos:
  assumes "0 < s" "s \<le> 32767"
  shows "float_to_pcm16 (pcm16_to_float s) = s - 1"
proof -
  have m: "max (- 1) (min 1 (of_int s / 32768 :: rat)) = of_int s / 32768"
    using assms by (simp add: max_def min_def divide_le_eq le_divide_eq)
  have "(of_int s / 32768 :: rat) * 32767 = of_int (s * 32767) / of_int 32768"
    by simp
  then have fl: "\<lfloor>(of_int s / 32768 :: rat) * 32767\<rfloor> = (s * 32767) div 32768"
    by (simp only: floor_divide_of_int_eq)
  have "s * 32767 = (s - 1) * 32768 + (32768 - s)" by (simp add: algebra_simps)
  then have "(s * 32767) div 32768 = s - 1"
    using assms by (simp add: div_pos_pos_trivial)
  with fl show ?thesis
    using assms
    by (simp add: pcm16_to_float_def float_to_pcm16_Finite m trunc_toward_zero_def
          divide_less_0_iff Let_def)
qed

section \<open>Properties of the mixer and the pipeline\<close>

lemma mixAudio_odd:
  "odd (length speechPcmData) \<Longrightarrow> mixAudio p speechPcmData musicUrl musicVolume = Inl RangeError"
  by (simp add: mixAudio_def Int16Array_def and_then_def odd_iff_mod_2_eq_one)

lemma mixAudio_empty: "mixAudio p [] musicUrl musicVolume = Inl NotSupportedError"
  by (simp add: mixAudio_def Int16Array_def and_then_def createBuffer_def)

lemma mixAudio_retrieval_fails:
  assumes "retrieval_fails p musicUrl" and "even (length speechPcmData)" and "speechPcmData \<noteq> []"
  shows "\<exists>e. mixAudio p speechPcmData musicUrl musicVolume = Inl e \<and> music_fetch_error e"
proof -
  have "length (int16_elements speechPcmData) \<noteq> 0"
    using assms(2,3) by (cases speechPcmData) (auto simp: int16_elements_length elim!: evenE)
  then show ?thesis
    using assms(1,2)
    by (auto simp: mixAudio_def Int16Array_def and_then_def createBuffer_def Let_def
          retrieval_fails_def music_fetch_error_def split: fetch_result.splits)
qed

lemma mixAudio_fails:
  assumes "retrieval_fails p musicUrl"
  shows "isl (mixAudio p speechPcmData musicUrl musicVolume)"
proof (cases "even (length speechPcmData) \<and> speechPcmData \<noteq> []")
  case True
  with mixAudio_retrieval_fails [OF assms, of speechPcmData musicVolume] show ?thesis by auto
next
  case False
  then show ?thesis
    using mixAudio_odd [of speechPcmData p musicUrl musicVolume]
      mixAudio_empty [of p musicUrl musicVolume] by auto
qed

lemma charCode_char_of [simp]: "(of_char (char_of (n :: nat)) :: int) = int (n mod 256)"
proof -
  have "(of_char (char_of n) :: int) = int (of_char (char_of n))"
    by (simp only: of_nat_of_char)
  then show ?thesis by simp
qed

lemma decode_empty: "decode [] = Inr []"
  by (simp add: decode_def atob_def strip_padding_def and_then_def)

lemma assemble_mix_path:
  assumes "selectedMusicUrl backgroundMusic customMusicUrl = Some musicUrl"
    and "musicUrl \<noteq> []" and "musicUrl \<noteq> ''none''"
    and "payload \<noteq> []" and "decode payload = Inr pcmData"
  shows "assemble p (Some payload) backgroundMusic customMusicUrl musicVolume
           = mixAudio p pcmData musicUrl musicVolume"
  using assms by (simp add: assemble_def truthy_def and_then_def)

lemma assemble_direct:
  assumes "\<not> truthy (selectedMusicUrl backgroundMusic customMusicUrl) \<or>
           selectedMusicUrl backgroundMusic customMusicUrl = Some ''none''"
    and "payload \<noteq> []" and "decode payload = Inr pcmData"
  shows "assemble p (Some payload) backgroundMusic customMusicUrl musicVolume
           = pcmToWav pcmData 24000 1"
  using assms by (auto simp: assemble_def truthy_def and_then_def)

lemma assemble_empty_payload:
  "assemble p None backgroundMusic customMusicUrl musicVolume
     = Inl (Error ''Received empty audio data from the API.'')"
  "assemble p (Some []) backgroundMusic customMusicUrl musicVolume
     = Inl (Error ''Received empty audio data from the API.'')"
  by (simp_all add: assemble_def truthy_def)

lemma decode_AAD: "decode ''AAD//w=='' = Inr [0, 0, 255, 255]"
  by (simp add: decode_def atob_def strip_padding_def is_ascii_whitespace_def
        base64_value_def and_then_def)

lemma mixAudio_renders:
  assumes "even (length speechPcmData)" and "speechPcmData \<noteq> []"
    and "fetch p musicUrl = FetchResponse True statusText (Some musicArrayBuffer)"
    and "decodeAudioData p musicArrayBuffer = Some musicAudioBuffer"
  shows "mixAudio p speechPcmData musicUrl musicVolume =
           (let mixedAudioBuffer =
                  startRendering p
                    \<lparr>rg_numberOfChannels = 2, rg_length = length speechPcmData div 2,
                     rg_sampleRate = 24000,
                     rg_speech =
                       \<lparr>ab_sampleRate = 24000, ab_length = length speechPcmData div 2,
                        ab_channels = [map pcm16_to_float (int16_elements speechPcmData)]\<rparr>,
                     rg_music = musicAudioBuffer, rg_music_loop = True,
                     rg_music_gain = musicVolume\<rparr>
            in pcmToWav (audioBufferToPcm mixedAudioBuffer) 24000
                 (int (numberOfChannels mixedAudioBuffer)))"
proof -
  have n: "length speechPcmData div 2 \<noteq> 0"
    using assms(1,2) by (cases speechPcmData) (auto elim!: evenE)
  then have "length (int16_elements speechPcmData) \<noteq> 0"
    by (simp add: int16_elements_length)
  then have "int16_elements speechPcmData \<noteq> []" by simp
  with n show ?thesis
    using assms
    by (simp add: mixAudio_def Int16Array_def and_then_def createBuffer_def
          OfflineAudioContext_def Let_def int16_elements_length)
qed

section \<open>Properties of the byte decoder\<close>

lemma base64_value_char: "n < 64 \<Longrightarrow> base64_value (base64_char n) = Some n"
  by (auto simp: base64_value_def base64_char_def Let_def)

lemma whitespace_no_value: "is_ascii_whitespace c \<Longrightarrow> base64_value c = None"
  by (auto simp: is_ascii_whitespace_def base64_value_def Let_def)

lemma pad_no_value: "base64_value CHR ''='' = None"
  by (simp add: base64_value_def)

lemma pad_not_whitespace: "\<not> is_ascii_whitespace CHR ''=''"
  by (simp add: is_ascii_whitespace_def)

lemma base64_char_neq_pad: "n < 64 \<Longrightarrow> base64_char n \<noteq> CHR ''=''"
  using base64_value_char [of n] pad_no_value by auto

lemma base64_char_not_whitespace: "n < 64 \<Longrightarrow> \<not> is_ascii_whitespace (base64_char n)"
  using base64_value_char [of n] whitespace_no_value by fastforce


lemma base64_encode_no_whitespace:
  "filter (\<lambda>c. \<not> is_ascii_whitespace c) (base64_encode bs) = base64_encode bs"
proof (induction bs rule: base64_encode.induct)
  case (1 x y z rest)
  have "unat x < 256" "unat y < 256" "unat z < 256"
    using unsigned_less [of x] unsigned_less [of y] unsigned_less [of z] by simp_all
  then have "unat x div 4 < 64" "unat x mod 4 * 16 + unat y div 16 < 64"
    "unat y mod 16 * 4 + unat z div 64 < 64" "unat z mod 64 < 64"
    by auto
  with 1 show ?case by (simp add: base64_char_not_whitespace)
next
  case (2 x y)
  have "unat x < 256" "unat y < 256"
    using unsigned_less [of x] unsigned_less [of y] by simp_all
  then have "unat x div 4 < 64" "unat x mod 4 * 16 + unat y div 16 < 64"
    "unat y mod 16 * 4 < 64"
    by auto
  then show ?case by (simp add: base64_char_not_whitespace pad_not_whitespace)
next
  case (3 x)
  have "unat x < 256" using unsigned_less [of x] by simp
  then have "unat x div 4 < 64" "unat x mod 4 * 16 < 64" by auto
  then show ?case by (simp add: base64_char_not_whitespace pad_not_whitespace)
next
  case 4
  then show ?case by simp
qed

lemma length_base64_encode: "length (base64_encode bs) mod 4 = 0"
  by (induction bs rule: base64_encode.induct) auto

lemma base64_encode_empty_iff: "base64_encode bs = [] \<longleftrightarrow> bs = []"
  by (cases bs rule: base64_encode.cases) auto

lemma strip_padding_block:
  assumes "ys \<noteq> []" and "length ys mod 4 = 0"
  shows "strip_padding (a # b # c # d # ys) = a # b # c # d # strip_padding ys"
proof -
  have "length ys \<noteq> 0" using assms(1) by simp
  with assms(2) have len: "4 \<le> length ys" by presburger
  then have l: "last (a # b # c # d # ys) = last ys" using assms(1) by simp
  have k: "length (a # b # c # d # ys) - 2 = Suc (Suc (Suc (Suc (length ys - 2))))"
    using len by simp
  have d2: "drop (length (a # b # c # d # ys) - 2) (a # b # c # d # ys) = drop (length ys - 2) ys"
    unfolding k by simp
  have t2: "take (length (a # b # c # d # ys) - 2) (a # b # c # d # ys)
            = a # b # c # d # take (length ys - 2) ys"
    unfolding k by simp
  have bl: "butlast (a # b # c # d # ys) = a # b # c # d # butlast ys"
    using assms(1) by simp
  have m: "length (a # b # c # d # ys) mod 4 = 0" using assms(2) by simp
  show ?thesis
    unfolding strip_padding_def [of "a # b # c # d # ys"] strip_padding_def [of ys]
    unfolding d2 t2 bl l m assms(2)
    using len by simp
qed


lemma sextets_first:
  fixes x y :: nat
  assumes "y < 256"
  shows "x div 4 * 4 + (x mod 4 * 16 + y div 16) div 16 = x"
proof -
  have "y div 16 < 16" using assms by simp
  then have "(x mod 4 * 16 + y div 16) div 16 = x mod 4" by simp
  then show ?thesis by simp
qed

lemma sextets_second:
  fixes x y z :: nat
  assumes "y < 256" "z < 256"
  shows "(x mod 4 * 16 + y div 16) mod 16 * 16 + (y mod 16 * 4 + z div 64) div 4 = y"
proof -
  have "y div 16 < 16" "z div 64 < 4" using assms by simp_all
  then have "(x mod 4 * 16 + y div 16) mod 16 = y div 16"
    "(y mod 16 * 4 + z div 64) div 4 = y mod 16" by simp_all
  then show ?thesis by simp
qed

lemma sextets_third:
  fixes y z :: nat
  assumes "z < 256"
  shows "(y mod 16 * 4 + z div 64) mod 4 * 64 + z mod 64 = z"
proof -
  have "z div 64 < 4" using assms by simp
  then have "(y mod 16 * 4 + z div 64) mod 4 = z div 64" by simp
  then show ?thesis by simp
qed


lemma strip_padding_full_block:
  assumes "c \<noteq> CHR ''=''" "d \<noteq> CHR ''=''"
  shows "strip_padding [a, b, c, d] = [a, b, c, d]"
  using assms by (simp add: strip_padding_def)

lemma strip_padding_one_pad:
  assumes "c \<noteq> CHR ''=''"
  shows "strip_padding [a, b, c, CHR ''=''] = [a, b, c]"
  using assms by (simp add: strip_padding_def)

lemma strip_padding_two_pads: "strip_padding [a, b, CHR ''='', CHR ''=''] = [a, b]"
  by (simp add: strip_padding_def)

lemma base64_encode_sextets:
  "length (strip_padding (base64_encode bs)) mod 4 \<noteq> 1 \<and>
   list_all (\<lambda>c. base64_value c \<noteq> None) (strip_padding (base64_encode bs)) \<and>
   sextets_to_bytes (map (\<lambda>c. the (base64_value c)) (strip_padding (base64_encode bs)))
     = map unat bs"
proof (induction bs rule: base64_encode.induct)
  case (1 x y z rest)
  have b: "unat x < 256" "unat y < 256" "unat z < 256"
    using unsigned_less [of x] unsigned_less [of y] unsigned_less [of z] by simp_all
  then have r: "unat x div 4 < 64" "unat x mod 4 * 16 + unat y div 16 < 64"
    "unat y mod 16 * 4 + unat z div 64 < 64" "unat z mod 64 < 64"
    by auto
  note v = r [THEN base64_value_char]
  note bytes = sextets_first [OF b(2), of "unat x"] sextets_second [OF b(2,3), of "unat x"]
    sextets_third [OF b(3), of "unat y"]
  show ?case
  proof (cases "rest = []")
    case True
    have "strip_padding (base64_encode (x # y # z # rest))
          = [base64_char (unat x div 4), base64_char (unat x mod 4 * 16 + unat y div 16),
             base64_char (unat y mod 16 * 4 + unat z div 64), base64_char (unat z mod 64)]"
      using True r by (simp add: strip_padding_full_block base64_char_neq_pad)
    then show ?thesis using v bytes True by simp
  next
    case False
    then have "base64_encode rest \<noteq> []" by (simp add: base64_encode_empty_iff)
    then have "strip_padding (base64_encode (x # y # z # rest))
          = base64_char (unat x div 4) # base64_char (unat x mod 4 * 16 + unat y div 16) #
            base64_char (unat y mod 16 * 4 + unat z div 64) # base64_char (unat z mod 64) #
            strip_padding (base64_encode rest)"
      by (simp add: strip_padding_block length_base64_encode)
    then show ?thesis using v bytes 1 by simp
  qed
next
  case (2 x y)
  have b: "unat x < 256" "unat y < 256"
    using unsigned_less [of x] unsigned_less [of y] by simp_all
  then have r: "unat x div 4 < 64" "unat x mod 4 * 16 + unat y div 16 < 64"
    "unat y mod 16 * 4 < 64"
    by auto
  note v = r [THEN base64_value_char]
  have "(unat x mod 4 * 16 + unat y div 16) mod 16 * 16 + unat y mod 16 * 4 div 4 = unat y"
    using sextets_second [OF b(2), of 0 "unat x"] by simp
  with sextets_first [OF b(2), of "unat x"] v r show ?case
    by (simp add: strip_padding_one_pad base64_char_neq_pad)
next
  case (3 x)
  have "unat x < 256" using unsigned_less [of x] by simp
  then have r: "unat x div 4 < 64" "unat x mod 4 * 16 < 64" by auto
  note v = r [THEN base64_value_char]
  have "unat x div 4 * 4 + unat x mod 4 * 16 div 16 = unat x"
    using sextets_first [of 0 "unat x"] by simp
  with v show ?case by (simp add: strip_padding_two_pads)
next
  case 4
  then show ?case by (simp add: strip_padding_def)
qed

lemma decode_base64_encode: "decode (base64_encode bs) = Inr bs"
proof -
  have "word_of_nat (unat x mod 256) = x" for x :: byte
  proof -
    have "unat x < 256" using unsigned_less [of x, where 'a = nat] by simp
    then have "unat x mod 256 = unat x" by simp
    then show ?thesis by simp
  qed
  then have "map (\<lambda>c. word_of_int (of_char c mod 256)) (map char_of (map unat bs)) = bs"
    by (simp add: comp_def map_idI)
  then show ?thesis
    using base64_encode_sextets [of bs]
    by (simp add: decode_def atob_def and_then_def base64_encode_no_whitespace Let_def
          list_all_iff)
qed

lemma decode_error: "isl (decode s) \<Longrightarrow> decode s = Inl InvalidCharacterError"
  by (auto simp: decode_def atob_def and_then_def Let_def split: if_splits)

lemma base64_alphabet_value: "base64_alphabet c \<Longrightarrow> base64_value c \<noteq> None"
  by (auto simp: base64_alphabet_def base64_value_def)

lemma base64_alphabet_table:
  "list_all (\<lambda>n. base64_alphabet (base64_char n)) [0..<64]"
  by code_simp

lemma base64_alphabet_char: "n < 64 \<Longrightarrow> base64_alphabet (base64_char n)"
  using base64_alphabet_table by (simp add: list_all_iff)

lemma alphabet_not_pad: "base64_alphabet c \<Longrightarrow> c \<noteq> CHR ''=''"
  by (auto simp: base64_alphabet_def)

lemma alphabet_not_whitespace: "base64_alphabet c \<Longrightarrow> \<not> is_ascii_whitespace c"
  using base64_alphabet_value whitespace_no_value by blast

lemma rfc4648_valid_block:
  assumes "base64_alphabet a" "base64_alphabet b" "base64_alphabet c" "base64_alphabet d"
  shows "rfc4648_valid (a # b # c # d # rest) = rfc4648_valid rest"
  using assms by (cases rest) simp_all

lemma rfc4648_valid_length: "rfc4648_valid s \<Longrightarrow> length s mod 4 = 0"
proof (induction s rule: rfc4648_valid.induct)
  case (3 a b c d e rest)
  then have "length (e # rest) mod 4 = 0" by simp
  then show ?case by simp presburger
qed simp_all

lemma rfc4648_valid_chars:
  "rfc4648_valid s \<Longrightarrow> c \<in> set s \<Longrightarrow> base64_alphabet c \<or> c = CHR ''=''"
  by (induction s rule: rfc4648_valid.induct) auto

lemma rfc4648_valid_no_whitespace:
  assumes "rfc4648_valid s"
  shows "filter (\<lambda>c. \<not> is_ascii_whitespace c) s = s"
proof -
  have "\<not> is_ascii_whitespace c" if "c \<in> set s" for c
    using rfc4648_valid_chars [OF assms that] alphabet_not_whitespace pad_not_whitespace
    by auto
  then show ?thesis by (simp add: filter_id_conv)
qed

lemma rfc4648_valid_stripped:
  "rfc4648_valid s \<Longrightarrow>
   length (strip_padding s) mod 4 \<noteq> 1 \<and>
   (\<forall>c \<in> set (strip_padding s). base64_value c \<noteq> None)"
proof (induction s rule: rfc4648_valid.induct)
  case 1
  then show ?case by (simp add: strip_padding_def)
next
  case (2 a b c d)
  then show ?case
    by (auto simp: strip_padding_full_block strip_padding_one_pad strip_padding_two_pads
          alphabet_not_pad base64_alphabet_value [simplified])
next
  case (3 a b c d e rest)
  then have v: "rfc4648_valid (e # rest)" by simp
  have "strip_padding (a # b # c # d # e # rest) = a # b # c # d # strip_padding (e # rest)"
    using rfc4648_valid_length [OF v] by (intro strip_padding_block) simp_all
  then show ?case using 3 v by (auto simp: base64_alphabet_value [simplified])
qed simp_all

lemma decode_rfc4648_valid: "rfc4648_valid s \<Longrightarrow> \<not> isl (decode s)"
  using rfc4648_valid_stripped [of s]
  by (simp add: decode_def atob_def and_then_def Let_def rfc4648_valid_no_whitespace)

lemma rfc4648_valid_encode: "rfc4648_valid (base64_encode bs)"
proof (induction bs rule: base64_encode.induct)
  case (1 x y z rest)
  have b: "unat x < 256" "unat y < 256" "unat z < 256"
    using unsigned_less [of x, where 'a = nat] unsigned_less [of y, where 'a = nat]
      unsigned_less [of z, where 'a = nat] by simp_all
  then have r: "unat x div 4 < 64" "unat x mod 4 * 16 + unat y div 16 < 64"
    "unat y mod 16 * 4 + unat z div 64 < 64" "unat z mod 64 < 64"
    by auto
  show ?case
    using 1 r [THEN base64_alphabet_char] by (simp add: rfc4648_valid_block)
next
  case (2 x y)
  have b: "unat x < 256" "unat y < 256"
    using unsigned_less [of x, where 'a = nat] unsigned_less [of y, where 'a = nat]
    by simp_all
  then have r: "unat x div 4 < 64" "unat x mod 4 * 16 + unat y div 16 < 64"
    "unat y mod 16 * 4 < 64"
    by auto
  show ?case using r [THEN base64_alphabet_char] by simp
next
  case (3 x)
  have "unat x < 256" using unsigned_less [of x, where 'a = nat] by simp
  then have r: "unat x div 4 < 64" "unat x mod 4 * 16 < 64" by auto
  show ?case using r [THEN base64_alphabet_char] by simp
next
  case 4
  then show ?case by simp
qed

lemma strip_padding_keeps:
  assumes "c \<in> set xs" and "c \<noteq> CHR ''=''"
  shows "c \<in> set (strip_padding xs)"
proof -
  have two: "c \<in> set (take (length xs - 2) xs)"
    if "drop (length xs - 2) xs = ''==''"
  proof -
    have "set xs = set (take (length xs - 2) xs) \<union> set (drop (length xs - 2) xs)"
      by (metis append_take_drop_id set_append)
    with assms that show ?thesis by auto
  qed
  have one: "c \<in> set (butlast xs)" if "last xs = CHR ''=''"
  proof -
    have ne: "xs \<noteq> []" using assms(1) by auto
    have "xs = butlast xs @ [last xs]" using ne by simp
    then have "set xs = set (butlast xs) \<union> {last xs}"
      by (metis set_append list.simps(15) empty_set)
    with assms that show ?thesis by auto
  qed
  show ?thesis
    using assms two one by (auto simp: strip_padding_def)
qed

lemma base64_value_inverse:
  assumes "base64_value c = Some v"
  shows "v < 64 \<and> c = base64_char v"
proof -
  define n where "n = (of_char c :: nat)"
  have c: "c = char_of n" by (simp add: n_def)
  have p: "char_of (43 :: nat) = CHR ''+''" "char_of (47 :: nat) = CHR ''/''"
    by (simp_all add: char_of_eq_iff)
  consider "65 \<le> n \<and> n \<le> 90" | "97 \<le> n \<and> n \<le> 122" | "48 \<le> n \<and> n \<le> 57"
    | "n = 43" | "n = 47"
    using assms by (auto simp: base64_value_def Let_def n_def [symmetric] split: if_splits)
  then show ?thesis
  proof cases
    case 1
    then have "v = n - 65"
      using assms by (simp add: base64_value_def Let_def n_def [symmetric])
    with 1 show ?thesis by (auto simp: base64_char_def c)
  next
    case 2
    then have "v = n - 71"
      using assms by (simp add: base64_value_def Let_def n_def [symmetric])
    with 2 show ?thesis by (auto simp: base64_char_def c)
  next
    case 3
    then have "v = n + 4"
      using assms by (simp add: base64_value_def Let_def n_def [symmetric])
    with 3 show ?thesis by (auto simp: base64_char_def c)
  next
    case 4
    then have "v = 62"
      using assms by (simp add: base64_value_def Let_def n_def [symmetric])
    with 4 show ?thesis by (simp add: base64_char_def c p)
  next
    case 5
    then have "v = 63"
      using assms by (simp add: base64_value_def Let_def n_def [symmetric])
    with 5 show ?thesis by (simp add: base64_char_def c p)
  qed
qed

lemma value_alphabet: "base64_value c \<noteq> None \<Longrightarrow> base64_alphabet c"
  using base64_value_inverse [of c] base64_alphabet_char by fastforce

lemma decode_foreign_char:
  assumes "c \<in> set s" and "\<not> base64_alphabet c" and "c \<noteq> CHR ''=''"
    and "\<not> is_ascii_whitespace c"
  shows "decode s = Inl InvalidCharacterError"
proof -
  let ?data = "strip_padding (filter (\<lambda>c. \<not> is_ascii_whitespace c) s)"
  have "c \<in> set ?data"
    using assms by (intro strip_padding_keeps) simp_all
  moreover have "base64_value c = None"
    using assms(2) value_alphabet by blast
  ultimately have "\<exists>c \<in> set ?data. base64_value c = None" by blast
  then show ?thesis
    by (simp add: decode_def atob_def and_then_def Let_def)
qed

section \<open>Properties of the renderer and the mix\<close>

lemma concat_replicate_nth:
  "i < k * length xs \<Longrightarrow> concat (replicate k xs) ! i = xs ! (i mod length xs)"
proof (induction k arbitrary: i)
  case 0
  then show ?case by simp
next
  case (Suc k)
  show ?case
  proof (cases "i < length xs")
    case True
    then show ?thesis by (simp add: nth_append)
  next
    case False
    then have "i - length xs < k * length xs" using Suc.prems by simp
    then have "concat (replicate k xs) ! (i - length xs) = xs ! ((i - length xs) mod length xs)"
      by (rule Suc.IH)
    moreover have "(i - length xs) mod length xs = i mod length xs"
      using False by (simp add: le_mod_geq)
    ultimately show ?thesis using False by (simp add: nth_append)
  qed
qed

lemma length_looped: "music \<noteq> [] \<Longrightarrow> length (looped music n) = n"
proof -
  assume "music \<noteq> []"
  then have "1 \<le> length music" by (cases music) simp_all
  then have "n * 1 \<le> n * length music" by (rule mult_le_mono2)
  then show ?thesis by (simp add: looped_def length_concat sum_list_replicate)
qed

lemma looped_nth:
  assumes "music \<noteq> []" and "i < n"
  shows "looped music n ! i = music ! (i mod length music)"
proof -
  have "1 \<le> length music" using assms(1) by (cases music) simp_all
  then have "n * 1 \<le> n * length music" by (rule mult_le_mono2)
  then have "n \<le> n * length music" by simp
  with assms(2) have "i < n * length music" by linarith
  then show ?thesis
    using assms(2) by (simp add: looped_def concat_replicate_nth)
qed

lemma looped_truncates: "n \<le> length music \<Longrightarrow> looped music n = take n music"
proof (cases n)
  case 0
  then show ?thesis by (simp add: looped_def)
next
  case (Suc k)
  assume "n \<le> length music"
  then show ?thesis by (simp add: looped_def Suc)
qed

lemma index_split:
  fixes j k c nc :: nat
  assumes "c < nc"
  shows "j = k * nc + c \<longleftrightarrow> j mod nc = c \<and> j div nc = k"
proof
  assume "j = k * nc + c"
  then show "j mod nc = c \<and> j div nc = k" using assms by simp
next
  assume "j mod nc = c \<and> j div nc = k"
  then show "j = k * nc + c"
    using div_mult_mod_eq [of j nc] by simp
qed

lemma inner_fold:
  assumes "c < nc"
  shows "length (fold (\<lambda>i acc. acc[i * nc + c := f i]) [0..<k] acc) = length acc \<and>
         (\<forall>j < length acc.
            fold (\<lambda>i acc. acc[i * nc + c := f i]) [0..<k] acc ! j =
              (if j mod nc = c \<and> j div nc < k then f (j div nc) else acc ! j))"
proof (induction k)
  case 0
  then show ?case by simp
next
  case (Suc k)
  let ?r = "fold (\<lambda>i acc. acc[i * nc + c := f i]) [0..<k] acc"
  have step: "fold (\<lambda>i acc. acc[i * nc + c := f i]) [0..<Suc k] acc = ?r[k * nc + c := f k]"
    by simp
  show ?case
  proof (intro conjI allI impI)
    show "length (fold (\<lambda>i acc. acc[i * nc + c := f i]) [0..<Suc k] acc) = length acc"
      using Suc by (simp only: step) simp
  next
    fix j assume j: "j < length acc"
    then have jr: "j < length ?r" using Suc by simp
    have old: "?r ! j = (if j mod nc = c \<and> j div nc < k then f (j div nc) else acc ! j)"
      using Suc j by blast
    show "fold (\<lambda>i acc. acc[i * nc + c := f i]) [0..<Suc k] acc ! j =
            (if j mod nc = c \<and> j div nc < Suc k then f (j div nc) else acc ! j)"
    proof (cases "j = k * nc + c")
      case True
      then have "j mod nc = c" "j div nc = k"
        using index_split [OF assms, of j k] by simp_all
      then show ?thesis using True jr by (simp only: step) simp
    next
      case False
      then have "\<not> (j mod nc = c \<and> j div nc = k)"
        using index_split [OF assms, of j k] by simp
      then have "(j mod nc = c \<and> j div nc < Suc k) = (j mod nc = c \<and> j div nc < k)"
        by auto
      then show ?thesis using False jr old by (simp only: step) simp
    qed
  qed
qed

lemma outer_fold:
  assumes "m \<le> nc"
  shows "length (fold (\<lambda>c acc. fold (\<lambda>i acc. acc[i * nc + c := F c i]) [0..<len] acc)
                  [0..<m] acc) = length acc \<and>
         (\<forall>j < length acc.
            fold (\<lambda>c acc. fold (\<lambda>i acc. acc[i * nc + c := F c i]) [0..<len] acc)
              [0..<m] acc ! j =
              (if j mod nc < m \<and> j div nc < len then F (j mod nc) (j div nc) else acc ! j))"
  using assms
proof (induction m)
  case 0
  then show ?case by simp
next
  case (Suc m)
  let ?G = "\<lambda>c acc. fold (\<lambda>i acc. acc[i * nc + c := F c i]) [0..<len] acc"
  let ?r = "fold ?G [0..<m] acc"
  have m: "m < nc" "m \<le> nc" using Suc.prems by simp_all
  have step: "fold ?G [0..<Suc m] acc = ?G m ?r" by simp
  have ih: "length ?r = length acc"
    "\<And>j. j < length acc \<Longrightarrow>
       ?r ! j = (if j mod nc < m \<and> j div nc < len then F (j mod nc) (j div nc) else acc ! j)"
    using Suc.IH [OF m(2)] by simp_all
  note inner = inner_fold [OF m(1), of "F m" len ?r]
  show ?case
  proof (intro conjI allI impI)
    show "length (fold ?G [0..<Suc m] acc) = length acc"
      using inner ih(1) unfolding step by simp
  next
    fix j assume j: "j < length acc"
    then have "?G m ?r ! j = (if j mod nc = m \<and> j div nc < len then F m (j div nc) else ?r ! j)"
      using inner ih(1) by simp
    moreover have "j mod nc < Suc m \<longleftrightarrow> j mod nc < m \<or> j mod nc = m" by auto
    ultimately show "fold ?G [0..<Suc m] acc ! j =
        (if j mod nc < Suc m \<and> j div nc < len then F (j mod nc) (j div nc) else acc ! j)"
      using ih(2) [OF j] by (simp only: step) auto
  qed
qed

lemma interleave_nth:
  assumes "j < ab_length b * numberOfChannels b"
  shows "interleave b ! j =
           element (ab_channels b ! (j mod numberOfChannels b)) (j div numberOfChannels b)"
proof -
  let ?nc = "numberOfChannels b"
  have nc: "0 < ?nc" using assms by (cases "?nc = 0") simp_all
  have d: "j div ?nc < ab_length b"
    using assms nc by (simp add: less_mult_imp_div_less)
  have md: "j mod ?nc < ?nc" using nc by simp
  note o = outer_fold [of ?nc ?nc "\<lambda>c i. element (ab_channels b ! c) i" "ab_length b"
      "replicate (ab_length b * ?nc) (Finite 0)"]
  show ?thesis
    using o assms d md by (simp add: interleave_def Let_def)
qed

lemma length_interleave: "length (interleave b) = ab_length b * numberOfChannels b"
  using outer_fold [of "numberOfChannels b" "numberOfChannels b"
      "\<lambda>c i. element (ab_channels b ! c) i" "ab_length b"
      "replicate (ab_length b * numberOfChannels b) (Finite 0)"]
  by (simp add: interleave_def Let_def)

lemma interleave_map:
  "interleave b =
     map (\<lambda>j. element (ab_channels b ! (j mod numberOfChannels b)) (j div numberOfChannels b))
       [0..<ab_length b * numberOfChannels b]"
  by (rule nth_equalityI) (simp_all add: length_interleave interleave_nth)

lemma music_for_channel_length:
  assumes "well_formed music"
  shows "length (music_for_channel music c) = ab_length music"
proof -
  have ne: "ab_channels music \<noteq> []"
    and all: "\<And>ch. ch \<in> set (ab_channels music) \<Longrightarrow> length ch = ab_length music"
    using assms by (simp_all add: well_formed_def list_all_iff)
  have "music_for_channel music c \<in> set (ab_channels music)"
    using ne by (simp add: music_for_channel_def Let_def)
  then show ?thesis by (rule all)
qed

lemma spec_render_mix_graph:
  assumes "well_formed music" and "even (length speechPcmData)"
  shows "spec_render (mix_graph speechPcmData music gain) =
           \<lparr>ab_sampleRate = 24000, ab_length = length speechPcmData div 2,
            ab_channels =
              map (\<lambda>c. map (mixed_sample speechPcmData music gain c)
                           [0..<length speechPcmData div 2]) [0..<2]\<rparr>"
proof -
  let ?n = "length speechPcmData div 2"
  let ?speech = "map pcm16_to_float (int16_elements speechPcmData)"
  have ls: "length ?speech = ?n" by (simp add: int16_elements_length)
  have m: "music_for_channel music c \<noteq> []" "length (music_for_channel music c) = ab_length music"
    for c
    using music_for_channel_length [OF assms(1), of c] assms(1)
    by (auto simp: well_formed_def)
  have sample: "float_plus (sample_or_silence ?speech i)
          (sample_or_silence
             (map (float_times (Finite gain)) (looped (music_for_channel music c) ?n)) i)
        = mixed_sample speechPcmData music gain c i" if "i < ?n" for i c
    using that ls m [of c]
    by (simp add: sample_or_silence_def length_looped looped_nth mixed_sample_def
          int16_elements_length)
  have "map (\<lambda>i. float_plus (sample_or_silence ?speech i)
          (sample_or_silence
             (map (float_times (Finite gain)) (looped (music_for_channel music c) ?n)) i))
          [0..<?n]
        = map (mixed_sample speechPcmData music gain c) [0..<?n]" for c
    by (rule map_cong) (simp_all add: sample)
  then show ?thesis
    by (simp add: spec_render_def mix_graph_def Let_def)
qed

lemma mixAudio_spec_render:
  assumes "even (length speechPcmData)" and "speechPcmData \<noteq> []"
    and "fetch p musicUrl = FetchResponse True statusText (Some musicArrayBuffer)"
    and "decodeAudioData p musicArrayBuffer = Some music"
    and "well_formed music"
    and "startRendering p = spec_render"
  shows "mixAudio p speechPcmData musicUrl musicVolume =
           Inr \<lparr>blob_bytes =
                  wav_header (int (length speechPcmData div 2 * 4)) 24000 2 @
                  concat (map (\<lambda>j. bytes16
                                  (float_to_pcm16
                                     (mixed_sample speechPcmData music musicVolume
                                        (j mod 2) (j div 2))) True)
                            [0..<length speechPcmData div 2 * 2]),
                blob_type = ''audio/wav''\<rparr>"
proof -
  let ?n = "length speechPcmData div 2"
  let ?rendered = "spec_render (mix_graph speechPcmData music musicVolume)"
  let ?data = "concat (map (\<lambda>j. bytes16
                 (float_to_pcm16 (mixed_sample speechPcmData music musicVolume (j mod 2) (j div 2)))
                 True) [0..<?n * 2])"
  have r: "ab_length ?rendered = ?n" "numberOfChannels ?rendered = 2"
    "ab_channels ?rendered =
       map (\<lambda>c. map (mixed_sample speechPcmData music musicVolume c) [0..<?n]) [0..<2]"
    by (simp_all add: spec_render_mix_graph [OF assms(5,1)] numberOfChannels_def)
  have el: "element (ab_channels ?rendered ! (j mod 2)) (j div 2)
              = mixed_sample speechPcmData music musicVolume (j mod 2) (j div 2)"
    if "j < ?n * 2" for j
  proof -
    have "j div 2 < ?n" using that by (simp add: less_mult_imp_div_less)
    moreover have "j mod 2 < 2" by simp
    ultimately show ?thesis
      unfolding r(3) by (simp add: element_def del: upt_Suc)
  qed
  have "interleave ?rendered
          = map (\<lambda>j. mixed_sample speechPcmData music musicVolume (j mod 2) (j div 2))
              [0..<?n * 2]"
    unfolding interleave_map r(1,2)
    by (rule map_cong) (simp_all add: el)
  then have pcm: "audioBufferToPcm ?rendered = ?data"
    by (simp add: audioBufferToPcm_def Let_def comp_def)
  have len: "length ?data = ?n * 4"
    by (simp add: length_concat comp_def sum_list_triv)
  then have ev: "even (length ?data)" by simp
  have "mixAudio p speechPcmData musicUrl musicVolume
          = pcmToWav (audioBufferToPcm ?rendered) 24000 (int (numberOfChannels ?rendered))"
    using mixAudio_renders [OF assms(1-4), of musicVolume] assms(6)
    by (simp add: mix_graph_def Let_def)
  then show ?thesis
    unfolding pcm r(2) using pcmToWav_even [OF ev, of 24000 2] len by simp
qed

text \<open>The frame count of the blob needs of the renderer only that it renders the
  length and the channel count of the destination it is given.\<close>

lemma length_audioBufferToPcm:
  "length (audioBufferToPcm b) = ab_length b * numberOfChannels b * 2"
  by (simp add: audioBufferToPcm_def Let_def length_concat comp_def sum_list_triv
        length_interleave)

lemma mixAudio_frame_count:
  assumes "even (length speechPcmData)" and "speechPcmData \<noteq> []"
    and "fetch p musicUrl = FetchResponse True statusText (Some musicArrayBuffer)"
    and "decodeAudioData p musicArrayBuffer = Some music"
    and "ab_length (startRendering p (mix_graph speechPcmData music musicVolume))
           = rg_length (mix_graph speechPcmData music musicVolume)"
    and "numberOfChannels (startRendering p (mix_graph speechPcmData music musicVolume))
           = rg_numberOfChannels (mix_graph speechPcmData music musicVolume)"
  shows "mix_frame_count (length speechPcmData div 2)
           (mixAudio p speechPcmData musicUrl musicVolume)"
proof -
  let ?rendered = "startRendering p (mix_graph speechPcmData music musicVolume)"
  have r: "ab_length ?rendered = length speechPcmData div 2" "numberOfChannels ?rendered = 2"
    using assms(5,6) by (simp_all add: mix_graph_def)
  have len: "length (audioBufferToPcm ?rendered) = length speechPcmData div 2 * 4"
    by (simp add: length_audioBufferToPcm r)
  then have ev: "even (length (audioBufferToPcm ?rendered))" by simp
  have "mixAudio p speechPcmData musicUrl musicVolume
          = pcmToWav (audioBufferToPcm ?rendered) 24000 (int (numberOfChannels ?rendered))"
    using mixAudio_renders [OF assms(1-4), of musicVolume]
    by (simp add: mix_graph_def Let_def)
  then show ?thesis
    unfolding r(2) using pcmToWav_even [OF ev, of 24000 2] len
    by (simp add: mix_frame_count_def wav_header_fields blockAlign_of_exact)
qed

lemma studio_music:
  "well_formed \<lparr>ab_sampleRate = 24000, ab_length = 2,
                ab_channels = [[Finite 1, Finite (- 1 / 2)]]\<rparr>"
  by (simp add: well_formed_def)

section \<open>The claims\<close>

subsection \<open>C1: the round trip of a sample\<close>

text \<open>
  Claim C1 says that converting an int16 sample \<open>s\<close> to a float by \<open>s / 32768\<close> and
  back by the float-to-PCM16 mapping gives \<open>s\<close> again over the whole range. The code
  scales a non-negative float by 32767, not 32768, and truncates: a positive sample
  comes back as \<open>s - 1\<close>. The round trip is the identity exactly on the samples that
  are not positive; in particular -32768 goes to -1.0 and back to -32768.
\<close>

theorem pcm16_roundtrip:
  "- 32768 \<le> s \<Longrightarrow> s \<le> 32767 \<Longrightarrow>
   float_to_pcm16 (pcm16_to_float s) = (if 0 < s then s - 1 else s)"
  using roundtrip_pos [of s] roundtrip_nonpos [of s] by simp

theorem pcm16_roundtrip_witness:
  "- 32768 \<le> (12345 :: int) \<and> (12345 :: int) \<le> 32767 \<and>
   float_to_pcm16 (pcm16_to_float 12345) = 12344 \<and>
   float_to_pcm16 (pcm16_to_float (- 32768)) = - 32768"
  using pcm16_roundtrip [of 12345] pcm16_roundtrip [of "- 32768"] by simp

theorem pcm16_roundtrip_counterexample:
  "- 32768 \<le> (1 :: int) \<and> (1 :: int) \<le> 32767 \<and> float_to_pcm16 (pcm16_to_float 1) \<noteq> 1"
  using roundtrip_pos [of 1] by simp

subsection \<open>C2: the float-to-PCM16 conversion\<close>

text \<open>
  Claim C2: the conversion clamps a float sample to \<open>[-1, 1]\<close>, scales the clamped value
  \<open>v\<close> by 32768 when \<open>v < 0\<close> and by 32767 otherwise, and truncates toward zero; what
  lies outside \<open>[-1, 1]\<close> (the infinities included) is clamped to -32768 or 32767 and
  never wraps, and no output leaves \<open>[-32768, 32767]\<close>. NaN, which is no sample value,
  is stored as 0.
\<close>

theorem float_to_pcm16_clamps:
  "float_to_pcm16 (Finite q) =
     trunc_toward_zero (let v = max (- 1) (min 1 q) in if v < 0 then v * 32768 else v * 32767)
   \<and> (1 \<le> q \<longrightarrow> float_to_pcm16 (Finite q) = 32767)
   \<and> (q \<le> - 1 \<longrightarrow> float_to_pcm16 (Finite q) = - 32768)
   \<and> float_to_pcm16 PosInfinity = 32767
   \<and> float_to_pcm16 NegInfinity = - 32768
   \<and> float_to_pcm16 NaN = 0
   \<and> - 32768 \<le> float_to_pcm16 f \<and> float_to_pcm16 f \<le> 32767"
proof -
  have hi: "float_to_pcm16 (Finite q) = 32767" if "1 \<le> q"
  proof -
    have "max (- 1) (min 1 q) = 1" using that by (simp add: max_def min_def)
    then show ?thesis by (simp add: float_to_pcm16_Finite trunc_toward_zero_def)
  qed
  have lo: "float_to_pcm16 (Finite q) = - 32768" if "q \<le> - 1"
  proof -
    have "max (- 1) (min 1 q) = - 1" using that by (simp add: max_def min_def)
    then show ?thesis by (simp add: float_to_pcm16_Finite trunc_toward_zero_def)
  qed
  show ?thesis
    using hi lo float_to_pcm16_range [of f]
    by (simp add: float_to_pcm16_Finite float_to_pcm16_special)
qed

theorem float_to_pcm16_clamps_witness:
  "(1 :: rat) \<le> 5 / 2 \<and> float_to_pcm16 (Finite (5 / 2)) = 32767 \<and>
   (- 7 / 4 :: rat) \<le> - 1 \<and> float_to_pcm16 (Finite (- 7 / 4)) = - 32768 \<and>
   float_to_pcm16 (Finite (1 / 2)) = 16383 \<and> float_to_pcm16 (Finite (- 1 / 2)) = - 16384"
  using float_to_pcm16_clamps [of "5 / 2" NaN] float_to_pcm16_clamps [of "- 7 / 4" NaN]
    float_to_pcm16_clamps [of "1 / 2" NaN] float_to_pcm16_clamps [of "- 1 / 2" NaN]
  by (simp add: trunc_toward_zero_def floor_eq_iff)

subsection \<open>C3: the layout of the WAV blob\<close>

text \<open>
  Claim C3 says that for every buffer of \<open>N\<close> samples with a channel count of at least 1
  and a positive sample rate the blob has \<open>44 + 2N\<close> bytes, the four tags, ChunkSize
  \<open>36 + 2N\<close>, Subchunk2Size \<open>2N\<close>, ByteRate \<open>SampleRate * NumChannels * 2\<close>, BlockAlign
  \<open>NumChannels * 2\<close>, 16 bits per sample, and the samples in little-endian order from
  byte 44 on. The fields have 16 and 32 bits and the setters reduce a value that does
  not fit. The layout holds as claimed when the block alignment is below \<open>2\<^sup>1\<^sup>6\<close> and the
  byte rate and the chunk size are below \<open>2\<^sup>3\<^sup>2\<close>.
\<close>

theorem pcmToWav_layout:
  assumes "even (length pcmData)" and "1 \<le> numChannels" and "0 < sampleRate"
    and "numChannels * 2 < 65536"
    and "sampleRate * numChannels * 2 < 4294967296"
    and "36 + int (length pcmData) < 4294967296"
  shows "wav_layout pcmData sampleRate numChannels (pcmToWav pcmData sampleRate numChannels)"
proof -
  let ?d = "int (length pcmData)"
  have d: "int (length (int16_elements pcmData)) * 2 = ?d"
    using assms(1) by (auto simp: int16_elements_length elim: evenE)
  have nn: "0 \<le> sampleRate * (numChannels * 2)"
    using assms(2,3) by simp
  have ba: "integer_or_zero (blockAlign_of numChannels) = numChannels * 2"
    using assms(2,4) by (intro blockAlign_of_exact) simp
  have br: "integer_or_zero (byteRate_of sampleRate numChannels) = sampleRate * (numChannels * 2)"
    using assms(2,4,5) nn by (intro byteRate_of_exact) (simp_all add: mult.assoc)
  have m: "(36 + ?d) mod 4294967296 = 36 + ?d" "?d mod 4294967296 = ?d"
    "(sampleRate * (numChannels * 2)) mod 4294967296 = sampleRate * numChannels * 2"
    "(numChannels * 2) mod 65536 = numChannels * 2"
    using assms nn by (simp_all add: mult.assoc)
  show ?thesis
    using assms(1)
    by (simp add: wav_layout_def pcmToWav_even Let_def d wav_header_fields m ba br
          wav_header_tags [of _ _ _ "[]", simplified] int16_elements_roundtrip)
qed

theorem pcmToWav_layout_witness:
  "even (length [1, 2, 255, 255 :: byte]) \<and> (1 :: int) \<le> 1 \<and> (0 :: int) < 24000 \<and>
   (1 :: int) * 2 < 65536 \<and> (24000 :: int) * 1 * 2 < 4294967296 \<and>
   36 + int (length [1, 2, 255, 255 :: byte]) < 4294967296 \<and>
   wav_layout [1, 2, 255, 255] 24000 1 (pcmToWav [1, 2, 255, 255] 24000 1)"
  using pcmToWav_layout [of "[1, 2, 255, 255]" 1 24000] by simp

theorem pcmToWav_layout_counterexample:
  "even (length ([] :: byte list)) \<and> (1 :: int) \<le> 1 \<and> (0 :: int) < 3000000000 \<and>
   \<not> wav_layout [] 3000000000 1 (pcmToWav [] 3000000000 1)"
proof -
  have "getUint32 (wav_header 0 3000000000 1 @ []) 28 = 1705032704"
    by (simp only: wav_header_fields) (simp add: byteRate_of_exact)
  then show ?thesis
    by (simp add: wav_layout_def pcmToWav_even Let_def)
qed

subsection \<open>C4: the byte decoder\<close>

text \<open>
  Claim C4 says that the decoder fails on every string that is not valid base64 and
  returns the decoded bytes on every valid one, the same for the same string. The
  decoder is the forgiving one of the platform: it ignores ASCII whitespace and accepts
  a string without its padding, so it also returns bytes for strings that are not valid
  base64. It never fails on a valid string; when it fails, the error is the
  \<^verbatim>\<open>InvalidCharacterError\<close> of \<^verbatim>\<open>atob\<close> and the string is not valid; it fails on every
  string with a character that is neither in the alphabet, nor padding, nor whitespace;
  the RFC 4648 encoding of any bytes is valid and decodes to those bytes; and equal
  strings give equal results.
\<close>

theorem decode_base64:
  "(rfc4648_valid s \<longrightarrow> \<not> isl (decode s)) \<and>
   (isl (decode s) \<longrightarrow> decode s = Inl InvalidCharacterError \<and> \<not> rfc4648_valid s) \<and>
   ((\<exists>c \<in> set s. \<not> base64_alphabet c \<and> c \<noteq> CHR ''='' \<and> \<not> is_ascii_whitespace c) \<longrightarrow>
      decode s = Inl InvalidCharacterError) \<and>
   rfc4648_valid (base64_encode bs) \<and> decode (base64_encode bs) = Inr bs \<and>
   (s = t \<longrightarrow> decode s = decode t)"
  using decode_rfc4648_valid [of s] decode_error [of s] decode_foreign_char [of _ s]
    rfc4648_valid_encode [of bs] decode_base64_encode [of bs]
  by blast

theorem decode_base64_witness:
  "rfc4648_valid ''AAD//w=='' \<and> decode ''AAD//w=='' = Inr [0, 0, 255, 255] \<and>
   base64_encode [0, 0, 255, 255] = ''AAD//w=='' \<and>
   CHR ''*'' \<in> set ''Y*=='' \<and> \<not> base64_alphabet CHR ''*'' \<and>
   \<not> is_ascii_whitespace CHR ''*'' \<and>
   decode ''Y*=='' = Inl InvalidCharacterError \<and> isl (decode ''Y*=='') \<and>
   \<not> rfc4648_valid ''Y*==''"
proof -
  have v: "rfc4648_valid ''AAD//w==''"
    by (simp add: base64_alphabet_def)
  have e: "base64_encode [0, 0, 255, 255] = ''AAD//w==''"
    by (simp add: base64_char_def char_of_eq_iff)
  have c: "CHR ''*'' \<in> set ''Y*==''" "\<not> base64_alphabet CHR ''*''"
    "\<not> is_ascii_whitespace CHR ''*''" "CHR ''*'' \<noteq> CHR ''=''"
    by (simp_all add: base64_alphabet_def is_ascii_whitespace_def)
  have f: "decode ''Y*=='' = Inl InvalidCharacterError"
    using decode_base64 [of "''Y*==''" "[]" "''Y*==''"] c by blast
  have d: "decode ''AAD//w=='' = Inr [0, 0, 255, 255]"
    using decode_base64 [of "''AAD//w==''" "[0, 0, 255, 255]" "''AAD//w==''"] e by simp
  have n: "\<not> rfc4648_valid ''Y*==''"
    using decode_base64 [of "''Y*==''" "[]" "''Y*==''"] f by simp
  show ?thesis
    using v d e c f n by simp
qed

theorem decode_base64_counterexample:
  "\<not> rfc4648_valid ''AR'' \<and> decode ''AR'' = Inr [1] \<and>
   \<not> rfc4648_valid ''A Q=='' \<and> decode ''A Q=='' = Inr [1]"
  by (simp add: decode_def atob_def strip_padding_def is_ascii_whitespace_def
        base64_value_def and_then_def)

subsection \<open>C5: the direct path\<close>

text \<open>
  Claim C5 says that without music (no selection, or the selection \<^verbatim>\<open>none\<close>) a payload
  that decodes to \<open>N\<close> mono samples gives a blob with NumChannels 1, SampleRate 24000,
  Subchunk2Size \<open>2N\<close> and the decoded bytes as data. The pipeline rejects an empty
  payload before decoding it (line 53), although it decodes to a buffer of 0 samples.
  The claim holds for every payload that is not empty and whose data size fits the 32
  bits of Subchunk2Size.
\<close>

theorem assemble_direct_path:
  assumes "payload \<noteq> []" and "decode payload = Inr pcmData" and "even (length pcmData)"
    and "int (length pcmData) < 4294967296"
    and "\<not> truthy (selectedMusicUrl backgroundMusic customMusicUrl) \<or>
         selectedMusicUrl backgroundMusic customMusicUrl = Some ''none''"
  shows "direct_path_output pcmData
           (assemble p (Some payload) backgroundMusic customMusicUrl musicVolume)"
proof -
  have d: "int (length (int16_elements pcmData)) * 2 = int (length pcmData)"
    using assms(3) by (auto simp: int16_elements_length elim: evenE)
  have m: "int (length pcmData) mod 4294967296 = int (length pcmData)"
    using assms(4) by simp
  show ?thesis
    using assms(3)
    by (simp add: assemble_direct [OF assms(5,1,2)] direct_path_output_def pcmToWav_even
          wav_header_fields d m)
qed

theorem assemble_direct_path_witness:
  "''AAD//w=='' \<noteq> [] \<and> decode ''AAD//w=='' = Inr [0, 0, 255, 255] \<and>
   even (length [0, 0, 255, 255 :: byte]) \<and>
   int (length [0, 0, 255, 255 :: byte]) < 4294967296 \<and>
   selectedMusicUrl ''none'' None = Some ''none'' \<and>
   \<not> truthy (selectedMusicUrl ''custom'' None) \<and>
   direct_path_output [0, 0, 255, 255]
     (assemble offline_platform (Some ''AAD//w=='') ''none'' None (3 / 20)) \<and>
   direct_path_output [0, 0, 255, 255]
     (assemble offline_platform (Some ''AAD//w=='') ''custom'' None (3 / 20))"
  using decode_AAD
    assemble_direct_path [of "''AAD//w==''" "[0, 0, 255, 255]" "''none''" None
      offline_platform "3 / 20"]
    assemble_direct_path [of "''AAD//w==''" "[0, 0, 255, 255]" "''custom''" None
      offline_platform "3 / 20"]
  by (simp add: selectedMusicUrl_def truthy_def)

theorem assemble_direct_path_counterexample:
  "decode [] = Inr [] \<and> even (length ([] :: byte list)) \<and>
   selectedMusicUrl ''none'' None = Some ''none'' \<and>
   assemble offline_platform (Some []) ''none'' None (3 / 20)
     = Inl (Error ''Received empty audio data from the API.'') \<and>
   \<not> direct_path_output [] (assemble offline_platform (Some []) ''none'' None (3 / 20))"
  by (simp add: decode_empty selectedMusicUrl_def assemble_def truthy_def
        direct_path_output_def)

subsection \<open>C6: the frame count of the mix and the looping of the music\<close>

text \<open>
  Claim C6 says that for every speech buffer of \<open>N\<close> frames and every music buffer of
  \<open>M\<close> frames the mix has exactly \<open>N\<close> frames, the music tiled from its start when
  \<open>M < N\<close> (music frame \<open>i mod M\<close> at output frame \<open>i\<close>) and cut to its first \<open>N\<close>
  frames when \<open>M > N\<close>. For \<open>N = 0\<close> the mix fails: \<^verbatim>\<open>createBuffer\<close> rejects a buffer
  without frames. For every \<open>N \<ge> 1\<close>, with the music retrieved and decoded and the
  renderer of the specification, the blob holds \<open>N\<close> stereo frames at 24000 Hz whatever
  \<open>M\<close> is, the rendered buffer has \<open>N\<close> frames, and its frame \<open>i\<close> carries music frame
  \<open>i mod M\<close>, which is frame \<open>i\<close> when the music is not shorter than the speech.
\<close>

theorem mix_frame_count_looped:
  assumes "even (length speechPcmData)" and "speechPcmData \<noteq> []"
    and "fetch p musicUrl = FetchResponse True statusText (Some musicArrayBuffer)"
    and "decodeAudioData p musicArrayBuffer = Some music"
    and "well_formed music"
    and "startRendering p = spec_render"
  shows "mix_frame_count (length speechPcmData div 2)
           (mixAudio p speechPcmData musicUrl musicVolume) \<and>
         ab_length (startRendering p (mix_graph speechPcmData music musicVolume))
           = length speechPcmData div 2 \<and>
         (\<forall>c < 2. \<forall>i < length speechPcmData div 2.
            ab_channels (startRendering p (mix_graph speechPcmData music musicVolume)) ! c ! i
              = float_plus (pcm16_to_float (int16_elements speechPcmData ! i))
                  (float_times (Finite musicVolume)
                     (music_for_channel music c ! (i mod ab_length music)))) \<and>
         (\<forall>c < 2. \<forall>i < length speechPcmData div 2.
            length speechPcmData div 2 \<le> ab_length music \<longrightarrow>
            ab_channels (startRendering p (mix_graph speechPcmData music musicVolume)) ! c ! i
              = float_plus (pcm16_to_float (int16_elements speechPcmData ! i))
                  (float_times (Finite musicVolume) (music_for_channel music c ! i)))"
proof -
  let ?n = "length speechPcmData div 2"
  let ?rendered = "startRendering p (mix_graph speechPcmData music musicVolume)"
  have r: "?rendered =
           \<lparr>ab_sampleRate = 24000, ab_length = ?n,
            ab_channels =
              map (\<lambda>c. map (mixed_sample speechPcmData music musicVolume c) [0..<?n]) [0..<2]\<rparr>"
    using spec_render_mix_graph [OF assms(5,1), of musicVolume] assms(6) by simp
  have ch: "ab_channels ?rendered ! c ! i = mixed_sample speechPcmData music musicVolume c i"
    if "c < 2" "i < ?n" for c i
    using that unfolding r by (simp del: upt_Suc)
  have fc: "mix_frame_count ?n (mixAudio p speechPcmData musicUrl musicVolume)"
    unfolding mixAudio_spec_render [OF assms]
    by (simp add: mix_frame_count_def wav_header_fields blockAlign_of_exact
          length_concat comp_def sum_list_triv)
  have tr: "i mod ab_length music = i" if "i < ?n" "?n \<le> ab_length music" for i
    using that by simp
  show ?thesis
    using fc ch tr by (simp add: r mixed_sample_def del: upt_Suc)
qed

theorem mix_frame_count_looped_witness:
  "even (length [255, 127, 0, 0, 0, 128 :: byte]) \<and> [255, 127, 0, 0, 0, 128 :: byte] \<noteq> [] \<and>
   fetch studio_platform ''music.mp3'' = FetchResponse True ''OK'' (Some []) \<and>
   decodeAudioData studio_platform [] =
     Some \<lparr>ab_sampleRate = 24000, ab_length = 2, ab_channels = [[Finite 1, Finite (- 1 / 2)]]\<rparr> \<and>
   well_formed \<lparr>ab_sampleRate = 24000, ab_length = 2,
                ab_channels = [[Finite 1, Finite (- 1 / 2)]]\<rparr> \<and>
   startRendering studio_platform = spec_render \<and>
   mix_frame_count 3 (mixAudio studio_platform [255, 127, 0, 0, 0, 128] ''music.mp3'' (1 / 2)) \<and>
   mix_frame_count 1 (mixAudio studio_platform [0, 128] ''music.mp3'' (1 / 2)) \<and>
   ab_channels (startRendering studio_platform
       (mix_graph [255, 127, 0, 0, 0, 128]
          \<lparr>ab_sampleRate = 24000, ab_length = 2, ab_channels = [[Finite 1, Finite (- 1 / 2)]]\<rparr>
          (1 / 2))) ! 1 ! 2
     = Finite (- 1 / 2)"
proof -
  have h: "fetch studio_platform ''music.mp3'' = FetchResponse True ''OK'' (Some [])"
    "decodeAudioData studio_platform [] =
       Some \<lparr>ab_sampleRate = 24000, ab_length = 2, ab_channels = [[Finite 1, Finite (- 1 / 2)]]\<rparr>"
    "startRendering studio_platform = spec_render"
    by (simp_all add: studio_platform_def)
  have e: "even (length [255, 127, 0, 0, 0, 128 :: byte])" "[255, 127, 0, 0, 0, 128 :: byte] \<noteq> []"
    "even (length [0, 128 :: byte])" "[0, 128 :: byte] \<noteq> []"
    by simp_all
  have n: "length [255, 127, 0, 0, 0, 128 :: byte] div 2 = 3" "length [0, 128 :: byte] div 2 = 1"
    by simp_all
  note long = mix_frame_count_looped [OF e(1,2) h(1) h(2) studio_music h(3), of "1 / 2",
      unfolded n]
  note short = mix_frame_count_looped [OF e(3,4) h(1) h(2) studio_music h(3), of "1 / 2",
      unfolded n]
  have f1: "mix_frame_count 3
      (mixAudio studio_platform [255, 127, 0, 0, 0, 128] ''music.mp3'' (1 / 2))"
    using long by (rule conjunct1)
  have f2: "mix_frame_count 1 (mixAudio studio_platform [0, 128] ''music.mp3'' (1 / 2))"
    using short by (rule conjunct1)
  have "(1 :: nat) < 2" "(2 :: nat) < 3" by simp_all
  with long have "ab_channels (startRendering studio_platform
       (mix_graph [255, 127, 0, 0, 0, 128]
          \<lparr>ab_sampleRate = 24000, ab_length = 2, ab_channels = [[Finite 1, Finite (- 1 / 2)]]\<rparr>
          (1 / 2))) ! 1 ! 2
     = float_plus (pcm16_to_float (int16_elements [255, 127, 0, 0, 0, 128] ! 2))
         (float_times (Finite (1 / 2))
            (music_for_channel
               \<lparr>ab_sampleRate = 24000, ab_length = 2, ab_channels = [[Finite 1, Finite (- 1 / 2)]]\<rparr>
               1 ! (2 mod ab_length
                 \<lparr>ab_sampleRate = 24000, ab_length = 2,
                  ab_channels = [[Finite 1, Finite (- 1 / 2)]]\<rparr>)))"
    by blast
  also have "\<dots> = Finite (- 1 / 2)"
    by (simp add: music_for_channel_def int16_of_bytes_def pcm16_to_float_def)
  finally have v: "ab_channels (startRendering studio_platform
       (mix_graph [255, 127, 0, 0, 0, 128]
          \<lparr>ab_sampleRate = 24000, ab_length = 2, ab_channels = [[Finite 1, Finite (- 1 / 2)]]\<rparr>
          (1 / 2))) ! 1 ! 2 = Finite (- 1 / 2)" .
  show ?thesis
    by (intro conjI e(1) e(2) h studio_music f1 f2 v)
qed

theorem mix_frame_count_looped_counterexample:
  "fetch studio_platform ''music.mp3'' = FetchResponse True ''OK'' (Some []) \<and>
   mixAudio studio_platform [] ''music.mp3'' (1 / 2) = Inl NotSupportedError \<and>
   \<not> mix_frame_count 0 (mixAudio studio_platform [] ''music.mp3'' (1 / 2))"
  by (simp add: mixAudio_empty mix_frame_count_def studio_platform_def)

subsection \<open>C7: the samples of the mix\<close>

text \<open>
  Claim C7: with the renderer of the specification, every sample of the rendered buffer
  is the speech sample plus the gain times the music sample, the mono speech at unity
  gain in both output channels, and nothing normalises or limits the sum: the rendered
  floats are these sums, above 1 or below -1 where they fall, and sample \<open>j\<close> of the
  blob (channel \<open>j mod 2\<close> of frame \<open>j div 2\<close>) is the float-to-PCM16 conversion of the
  sum, which alone clamps it.
\<close>

theorem mix_output_samples:
  assumes "even (length speechPcmData)" and "speechPcmData \<noteq> []"
    and "fetch p musicUrl = FetchResponse True statusText (Some musicArrayBuffer)"
    and "decodeAudioData p musicArrayBuffer = Some music"
    and "well_formed music"
    and "startRendering p = spec_render"
  shows "startRendering p (mix_graph speechPcmData music musicVolume) =
           \<lparr>ab_sampleRate = 24000, ab_length = length speechPcmData div 2,
            ab_channels =
              map (\<lambda>c. map (mixed_sample speechPcmData music musicVolume c)
                           [0..<length speechPcmData div 2]) [0..<2]\<rparr> \<and>
         mixAudio p speechPcmData musicUrl musicVolume =
           Inr \<lparr>blob_bytes =
                  wav_header (int (length speechPcmData div 2 * 4)) 24000 2 @
                  concat (map (\<lambda>j. bytes16
                                  (float_to_pcm16
                                     (mixed_sample speechPcmData music musicVolume
                                        (j mod 2) (j div 2))) True)
                            [0..<length speechPcmData div 2 * 2]),
                blob_type = ''audio/wav''\<rparr>"
  using mixAudio_spec_render [OF assms, of musicVolume]
    spec_render_mix_graph [OF assms(5,1), of musicVolume] assms(6)
  by simp

theorem mix_output_samples_witness:
  "even (length [255, 127, 0, 0, 0, 128 :: byte]) \<and> [255, 127, 0, 0, 0, 128 :: byte] \<noteq> [] \<and>
   fetch studio_platform ''music.mp3'' = FetchResponse True ''OK'' (Some []) \<and>
   decodeAudioData studio_platform [] =
     Some \<lparr>ab_sampleRate = 24000, ab_length = 2, ab_channels = [[Finite 1, Finite (- 1 / 2)]]\<rparr> \<and>
   well_formed \<lparr>ab_sampleRate = 24000, ab_length = 2,
                ab_channels = [[Finite 1, Finite (- 1 / 2)]]\<rparr> \<and>
   startRendering studio_platform = spec_render \<and>
   mixed_sample [255, 127, 0, 0, 0, 128]
     \<lparr>ab_sampleRate = 24000, ab_length = 2, ab_channels = [[Finite 1, Finite (- 1 / 2)]]\<rparr>
     (1 / 2) 0 0 = Finite (49151 / 32768) \<and>
   drop 44 (blob_bytes (projr (mixAudio studio_platform [255, 127, 0, 0, 0, 128] ''music.mp3''
      (1 / 2)))) = [255, 127, 255, 127, 0, 224, 0, 224, 0, 192, 0, 192]"
proof -
  have h: "fetch studio_platform ''music.mp3'' = FetchResponse True ''OK'' (Some [])"
    "decodeAudioData studio_platform [] =
       Some \<lparr>ab_sampleRate = 24000, ab_length = 2, ab_channels = [[Finite 1, Finite (- 1 / 2)]]\<rparr>"
    "startRendering studio_platform = spec_render"
    by (simp_all add: studio_platform_def)
  have e: "even (length [255, 127, 0, 0, 0, 128 :: byte])" "[255, 127, 0, 0, 0, 128 :: byte] \<noteq> []"
    by simp_all
  have s: "map (\<lambda>j. float_to_pcm16 (mixed_sample [255, 127, 0, 0, 0, 128]
       \<lparr>ab_sampleRate = 24000, ab_length = 2, ab_channels = [[Finite 1, Finite (- 1 / 2)]]\<rparr>
       (1 / 2) (j mod 2) (j div 2))) [0, 1, 2, 3, 4, 5]
     = [32767, 32767, - 8192, - 8192, - 16384, - 16384]"
    by (simp add: mixed_sample_def music_for_channel_def int16_of_bytes_def pcm16_to_float_def
          float_to_pcm16_Finite trunc_toward_zero_def floor_eq_iff ceiling_eq_iff)
  have u: "[0..<6] = [0, 1, 2, 3, 4, 5 :: nat]"
    by (simp add: upt_rec)
  have d: "concat (map (\<lambda>j. bytes16 (float_to_pcm16 (mixed_sample [255, 127, 0, 0, 0, 128]
       \<lparr>ab_sampleRate = 24000, ab_length = 2, ab_channels = [[Finite 1, Finite (- 1 / 2)]]\<rparr>
       (1 / 2) (j mod 2) (j div 2))) True) [0, 1, 2, 3, 4, 5])
     = [255, 127, 255, 127, 0, 224, 0, 224, 0, 192, 0, 192]"
    using s by (simp add: bytes16_le)
  have m: "mixed_sample [255, 127, 0, 0, 0, 128]
     \<lparr>ab_sampleRate = 24000, ab_length = 2, ab_channels = [[Finite 1, Finite (- 1 / 2)]]\<rparr>
     (1 / 2) 0 0 = Finite (49151 / 32768)"
    by (simp add: mixed_sample_def music_for_channel_def int16_of_bytes_def pcm16_to_float_def)
  have l: "length [255, 127, 0, 0, 0, 128 :: byte] div 2 * 2 = 6" by simp
  have "drop 44 (blob_bytes (projr (mixAudio studio_platform [255, 127, 0, 0, 0, 128]
      ''music.mp3'' (1 / 2)))) = [255, 127, 255, 127, 0, 224, 0, 224, 0, 192, 0, 192]"
    using mix_output_samples [OF e h(1) h(2) studio_music h(3), of "1 / 2", THEN conjunct2]
    unfolding l u d by simp
  then show ?thesis
    using h e studio_music m by simp
qed

subsection \<open>C8: music that cannot be retrieved\<close>

text \<open>
  Claim C8 says that when the music cannot be retrieved the mix operation, and with it
  the whole pipeline, fails with the error of the retrieval and produces no blob. The
  failure and the absence of a blob hold for every input. The error is the one of the
  retrieval (the \<^verbatim>\<open>TypeError\<close> of a rejected request or an unreadable body, or the
  \<^verbatim>\<open>Error\<close> the code throws for a response that is not \<^verbatim>\<open>ok\<close>) when the speech is a
  whole, positive number of samples: \<^verbatim>\<open>mixAudio\<close> reinterprets the speech bytes (line
  102) and creates the speech buffer (line 104) before it sends the request (line 111),
  and an error raised there comes first.
\<close>

theorem music_retrieval_failure:
  assumes "retrieval_fails p musicUrl"
  shows "isl (mixAudio p speechPcmData musicUrl musicVolume) \<and>
         (even (length speechPcmData) \<and> speechPcmData \<noteq> [] \<longrightarrow>
            music_fetch_error (projl (mixAudio p speechPcmData musicUrl musicVolume))) \<and>
         (selectedMusicUrl backgroundMusic customMusicUrl = Some musicUrl \<and>
          musicUrl \<noteq> [] \<and> musicUrl \<noteq> ''none'' \<longrightarrow>
            isl (assemble p base64Audio backgroundMusic customMusicUrl musicVolume) \<and>
            (base64Audio = Some payload \<and> decode payload = Inr speechPcmData \<and>
             even (length speechPcmData) \<and> speechPcmData \<noteq> [] \<longrightarrow>
               music_fetch_error
                 (projl (assemble p base64Audio backgroundMusic customMusicUrl musicVolume))))"
proof -
  have mix: "isl (mixAudio p pcm musicUrl musicVolume)" for pcm
    by (rule mixAudio_fails [OF assms])
  have kind: "music_fetch_error (projl (mixAudio p speechPcmData musicUrl musicVolume))"
    if "even (length speechPcmData)" "speechPcmData \<noteq> []"
    using mixAudio_retrieval_fails [OF assms that, of musicVolume] by auto
  have asm: "isl (assemble p base64Audio backgroundMusic customMusicUrl musicVolume)"
    if sel: "selectedMusicUrl backgroundMusic customMusicUrl = Some musicUrl"
      "musicUrl \<noteq> []" "musicUrl \<noteq> ''none''"
  proof (cases "decode (the base64Audio)")
    case (Inl e)
    then show ?thesis by (simp add: assemble_def and_then_def)
  next
    case (Inr pcm)
    then show ?thesis
      using sel mix [of pcm] by (simp add: assemble_def and_then_def truthy_def)
  qed
  have asm_kind:
    "music_fetch_error (projl (assemble p base64Audio backgroundMusic customMusicUrl musicVolume))"
    if sel: "selectedMusicUrl backgroundMusic customMusicUrl = Some musicUrl"
      "musicUrl \<noteq> []" "musicUrl \<noteq> ''none''"
      and pl: "base64Audio = Some payload" "decode payload = Inr speechPcmData"
        "even (length speechPcmData)" "speechPcmData \<noteq> []"
  proof -
    have "payload \<noteq> []" using pl(2,4) decode_empty by auto
    from assemble_mix_path [OF sel this pl(2)] kind [OF pl(3,4)] pl(1)
    show ?thesis by simp
  qed
  show ?thesis
    using mix [of speechPcmData] kind asm asm_kind by blast
qed

theorem music_retrieval_failure_witness:
  "retrieval_fails offline_platform ''https://example.invalid/music.mp3'' \<and>
   retrieval_fails not_found_platform ''https://example.invalid/music.mp3'' \<and>
   decode ''AAD//w=='' = Inr [0, 0, 255, 255] \<and>
   even (length [0, 0, 255, 255 :: byte]) \<and> [0, 0, 255, 255 :: byte] \<noteq> [] \<and>
   selectedMusicUrl ''https://example.invalid/music.mp3'' None
     = Some ''https://example.invalid/music.mp3'' \<and>
   mixAudio offline_platform [0, 0, 255, 255] ''https://example.invalid/music.mp3'' (3 / 20)
     = Inl TypeError \<and>
   assemble offline_platform (Some ''AAD//w=='') ''https://example.invalid/music.mp3'' None
     (3 / 20) = Inl TypeError \<and>
   assemble not_found_platform (Some ''AAD//w=='') ''https://example.invalid/music.mp3'' None
     (3 / 20) = Inl (Error ''Failed to fetch music file: Not Found'') \<and>
   music_fetch_error TypeError \<and>
   music_fetch_error (Error ''Failed to fetch music file: Not Found'')"
proof -
  have r: "retrieval_fails offline_platform ''https://example.invalid/music.mp3''"
    "retrieval_fails not_found_platform ''https://example.invalid/music.mp3''"
    by (simp_all add: retrieval_fails_def offline_platform_def not_found_platform_def)
  have m: "mixAudio offline_platform [0, 0, 255, 255] ''https://example.invalid/music.mp3''
             (3 / 20) = Inl TypeError"
    "mixAudio not_found_platform [0, 0, 255, 255] ''https://example.invalid/music.mp3''
             (3 / 20) = Inl (Error ''Failed to fetch music file: Not Found'')"
    by (simp_all add: mixAudio_def Int16Array_def and_then_def createBuffer_def Let_def
          offline_platform_def not_found_platform_def)
  have a: "assemble q (Some ''AAD//w=='') ''https://example.invalid/music.mp3'' None (3 / 20)
            = mixAudio q [0, 0, 255, 255] ''https://example.invalid/music.mp3'' (3 / 20)" for q
    by (rule assemble_mix_path [OF _ _ _ _ decode_AAD]) (simp_all add: selectedMusicUrl_def)
  show ?thesis
    using r m a decode_AAD
      music_retrieval_failure [OF r(1), of "[0, 0, 255, 255]" "3 / 20"
        "''https://example.invalid/music.mp3''" None "Some ''AAD//w==''" "''AAD//w==''"]
      music_retrieval_failure [OF r(2), of "[0, 0, 255, 255]" "3 / 20"
        "''https://example.invalid/music.mp3''" None "Some ''AAD//w==''" "''AAD//w==''"]
    by (simp add: music_fetch_error_def selectedMusicUrl_def)
qed

theorem music_retrieval_failure_counterexample:
  "retrieval_fails offline_platform ''https://example.invalid/music.mp3'' \<and>
   mixAudio offline_platform [1] ''https://example.invalid/music.mp3'' (3 / 20)
     = Inl RangeError \<and>
   \<not> music_fetch_error RangeError"
  by (simp add: retrieval_fails_def offline_platform_def mixAudio_odd music_fetch_error_def)

subsection \<open>C9: validation by the WAV encoder\<close>

text \<open>
  Claim C9 says that the encoder fails with a contract violation for a channel count
  below 1 or a sample rate that is not positive. The encoder checks neither: for every
  channel count and every sample rate it returns the blob with the header written from
  them, whenever the byte buffer has an even length; an odd length is its only failure,
  the \<^verbatim>\<open>RangeError\<close> of the \<^verbatim>\<open>Int16Array\<close> constructor. The block alignment and the
  byte rate of the header are the binary64 products of the code, reduced to their
  fields.
\<close>

theorem pcmToWav_never_validates:
  "pcmToWav pcmData sampleRate numChannels =
     (if even (length pcmData)
      then Inr \<lparr>blob_bytes = wav_header (int (length pcmData)) sampleRate numChannels @ pcmData,
                blob_type = ''audio/wav''\<rparr>
      else Inl RangeError)"
  by (simp add: pcmToWav_even pcmToWav_odd)

theorem pcmToWav_never_validates_counterexample:
  "pcmToWav [0, 128] 0 0 =
     Inr \<lparr>blob_bytes =
            [82, 73, 70, 70, 38, 0, 0, 0, 87, 65, 86, 69, 102, 109, 116, 32, 16, 0, 0, 0,
             1, 0, 0, 0, 0, 0, 0, 0, 0, 0, 0, 0, 0, 0, 16, 0, 100, 97, 116, 97, 2, 0, 0, 0,
             0, 128],
          blob_type = ''audio/wav''\<rparr>"
  by (simp add: pcmToWav_even wav_header_def ascii_def bytes32_le bytes16_le
        byteRate_of_exact blockAlign_of_exact)

subsection \<open>C10: a byte buffer of odd length\<close>

text \<open>
  Claim C10: for speech bytes of odd length the WAV encoder and the mix operation both
  fail, with the \<^verbatim>\<open>RangeError\<close> of the \<^verbatim>\<open>Int16Array\<close> constructor, and so does the
  pipeline on either path for a payload that decodes to such bytes.
\<close>

theorem odd_payload_fails:
  assumes "odd (length pcmData)"
  shows "pcmToWav pcmData sampleRate numChannels = Inl RangeError \<and>
         mixAudio p pcmData musicUrl musicVolume = Inl RangeError \<and>
         (decode payload = Inr pcmData \<longrightarrow>
            assemble p (Some payload) backgroundMusic customMusicUrl musicVolume = Inl RangeError)"
proof -
  have "assemble p (Some payload) backgroundMusic customMusicUrl musicVolume = Inl RangeError"
    if d: "decode payload = Inr pcmData"
  proof -
    have ne: "payload \<noteq> []" using d assms decode_empty by auto
    show ?thesis
      using ne d mixAudio_odd [OF assms] pcmToWav_odd [OF assms]
      by (auto simp: assemble_def truthy_def and_then_def Let_def)
  qed
  then show ?thesis
    using mixAudio_odd [OF assms] pcmToWav_odd [OF assms] by simp
qed

theorem odd_payload_fails_witness:
  "odd (length [1 :: byte]) \<and> decode ''AQ=='' = Inr [1] \<and>
   pcmToWav [1] 24000 1 = Inl RangeError \<and>
   mixAudio offline_platform [1] ''music.mp3'' (3 / 20) = Inl RangeError \<and>
   assemble offline_platform (Some ''AQ=='') ''none'' None (3 / 20) = Inl RangeError \<and>
   assemble offline_platform (Some ''AQ=='') ''music.mp3'' None (3 / 20) = Inl RangeError"
proof -
  have d: "decode ''AQ=='' = Inr [1]"
    by (simp add: decode_def atob_def strip_padding_def is_ascii_whitespace_def
          base64_value_def and_then_def)
  show ?thesis
    using d odd_payload_fails [of "[1]" 24000 1 offline_platform "''music.mp3''" "3 / 20"
        "''AQ==''" "''none''" None]
      odd_payload_fails [of "[1]" 24000 1 offline_platform "''music.mp3''" "3 / 20"
        "''AQ==''" "''music.mp3''" None]
    by simp
qed

end
